theory Spec2Isabelle
  imports Complex_Main "HOL-Library.Sublist" "HOL-Library.Multiset"
begin

section \<open>Characters and strings\<close>

text \<open>
  A Python \<open>str\<close> is a sequence of Unicode code points, and \<open>len\<close>, indexing,
  \<open>strip\<close> and \<open>lower\<close> work on code points. A character is modelled by its code
  point and a string by the list of its code points. String constants of the source are
  written as literals and converted by \<open>ustr\<close>.
\<close>

type_synonym uchar = nat
type_synonym ustring = "uchar list"

definition ustr :: "string \<Rightarrow> ustring" where
  "ustr s = map of_char s"

text \<open>\<open>string.ascii_lowercase\<close>, \<open>string.ascii_uppercase\<close>, \<open>string.digits\<close>.\<close>

definition ascii_lowercase :: ustring where
  "ascii_lowercase = ustr ''abcdefghijklmnopqrstuvwxyz''"

definition ascii_uppercase :: ustring where
  "ascii_uppercase = ustr ''ABCDEFGHIJKLMNOPQRSTUVWXYZ''"

definition digits :: ustring where
  "digits = ustr ''0123456789''"

text \<open>The constants of the module (lines 51 and 52).\<close>

definition AMBIGUOUS :: "uchar set" where
  "AMBIGUOUS = set (ustr ''Il1O0B8S5Z2QG6'')"

definition DEFAULT_SYMBOLS :: ustring where
  "DEFAULT_SYMBOLS = ustr ''!@#$%^&*()-_=+[]{};:,./?~''"

text \<open>
  \<open>str.strip()\<close> without argument removes leading and trailing whitespace, that is the
  code points for which \<open>str.isspace\<close> holds: U+0009 to U+000D, U+001C to U+0020, U+0085,
  U+00A0, U+1680, U+2000 to U+200A, U+2028, U+2029, U+202F, U+205F and U+3000.
\<close>

definition isspace :: "uchar \<Rightarrow> bool" where
  "isspace c \<longleftrightarrow>
     (9 \<le> c \<and> c \<le> 13) \<or> (28 \<le> c \<and> c \<le> 32) \<or> c = 133 \<or> c = 160 \<or> c = 5760 \<or>
     (8192 \<le> c \<and> c \<le> 8202) \<or> c = 8232 \<or> c = 8233 \<or> c = 8239 \<or> c = 8287 \<or> c = 12288"

definition strip :: "ustring \<Rightarrow> ustring" where
  "strip s = rev (dropWhile isspace (rev (dropWhile isspace s)))"

section \<open>Building the character set\<close>

text \<open>
  The loop of lines 114 to 117: \<open>seen\<close> is the set of characters met so far, \<open>out\<close> the
  list of the characters kept, in the order they were first met.
\<close>

fun dedup_loop :: "'a set \<Rightarrow> 'a list \<Rightarrow> 'a list \<Rightarrow> 'a list" where
  "dedup_loop seen out [] = out"
| "dedup_loop seen out (ch # rest) =
     (if ch \<notin> seen then dedup_loop (insert ch seen) (out @ [ch]) rest
      else dedup_loop seen out rest)"

text \<open>
  The symbol alphabet (line 109, and again line 743): the custom string stripped, or
  the default symbols when nothing is left of it.
\<close>

definition symbol_alphabet :: "ustring \<Rightarrow> ustring" where
  "symbol_alphabet custom_symbols =
     (if strip custom_symbols \<noteq> [] then strip custom_symbols else DEFAULT_SYMBOLS)"

definition build_charset ::
  "bool \<Rightarrow> bool \<Rightarrow> bool \<Rightarrow> bool \<Rightarrow> ustring \<Rightarrow> bool \<Rightarrow> ustring" where
  "build_charset include_lower include_upper include_digits include_symbols
       custom_symbols exclude_ambiguous =
     (let charset = [];
          charset = (if include_lower then charset @ ascii_lowercase else charset);
          charset = (if include_upper then charset @ ascii_uppercase else charset);
          charset = (if include_digits then charset @ digits else charset);
          charset = (if include_symbols then charset @ symbol_alphabet custom_symbols
                     else charset);
          charset = (if exclude_ambiguous then filter (\<lambda>ch. ch \<notin> AMBIGUOUS) charset
                     else charset)
      in dedup_loop {} [] charset)"

text \<open>
  The specification's wording of the same two steps. The alphabets of the selected
  classes are concatenated in the order lower, upper, digit, symbol; deduplication keeps
  a character where it occurs first and drops each later occurrence of it.
\<close>

definition class_concat :: "bool \<Rightarrow> bool \<Rightarrow> bool \<Rightarrow> bool \<Rightarrow> ustring \<Rightarrow> ustring" where
  "class_concat lower upper digit symbol custom =
     (if lower then ascii_lowercase else []) @ (if upper then ascii_uppercase else []) @
     (if digit then digits else []) @ (if symbol then symbol_alphabet custom else [])"

fun first_occurrences :: "'a list \<Rightarrow> 'a list" where
  "first_occurrences [] = []"
| "first_occurrences (x # xs) = x # first_occurrences (filter (\<lambda>y. y \<noteq> x) xs)"

section \<open>Case conversion\<close>

text \<open>
  \<open>str.lower\<close> and \<open>str.capitalize\<close> follow the Unicode character database of the
  interpreter, which is no part of the repository. On ASCII they are written out. Outside
  ASCII the tables are parameters of the model, but for the two code points whose
  lowercase form begins with an ASCII letter: U+212A (Kelvin sign), which lowers to
  \<open>k\<close>, and U+0130 (capital I with dot above), which lowers to \<open>i\<close> followed by
  U+0307. \<open>final_sigma s i\<close> tells whether the capital sigma at index \<open>i\<close> of \<open>s\<close> ends a
  word, the one case where the lowercase form depends on the neighbours.
\<close>

record ucd =
  lower_other :: "uchar \<Rightarrow> ustring"
  title_other :: "uchar \<Rightarrow> ustring"
  final_sigma :: "ustring \<Rightarrow> nat \<Rightarrow> bool"

definition lower_char :: "ucd \<Rightarrow> uchar \<Rightarrow> ustring" where
  "lower_char U c =
     (if 65 \<le> c \<and> c \<le> 90 then [c + 32]
      else if c < 128 then [c]
      else if c = 8490 then [107]
      else if c = 304 then [105, 775]
      else lower_other U c)"

text \<open>
  The lowercase form of the character at index \<open>i\<close> of \<open>s\<close>: U+03A3 (capital sigma)
  becomes U+03C2 at the end of a word and U+03C3 elsewhere, every other character follows
  the table. \<open>s.lower()\<close> puts these forms together.
\<close>

definition lower_at :: "ucd \<Rightarrow> ustring \<Rightarrow> nat \<Rightarrow> ustring" where
  "lower_at U s i =
     (if s ! i = 931 then (if final_sigma U s i then [962] else [963])
      else lower_char U (s ! i))"

definition lower :: "ucd \<Rightarrow> ustring \<Rightarrow> ustring" where
  "lower U s = concat (map (lower_at U s) [0..<length s])"

definition title_char :: "ucd \<Rightarrow> uchar \<Rightarrow> ustring" where
  "title_char U c =
     (if 97 \<le> c \<and> c \<le> 122 then [c - 32]
      else if c < 128 then [c]
      else title_other U c)"

text \<open>\<open>s.capitalize()\<close>: the first character in title case, all the others lowered.\<close>

definition capitalize :: "ucd \<Rightarrow> ustring \<Rightarrow> ustring" where
  "capitalize U s =
     (case s of
        [] \<Rightarrow> []
      | c # cs \<Rightarrow> title_char U c @ concat (map (lower_at U s) [1..<length s]))"

text \<open>
  A database with no case pairs outside the characters written out above. It serves to
  evaluate the functions on ASCII strings, where the tables are not looked at.
\<close>

definition plain_ucd :: ucd where
  "plain_ucd = \<lparr>lower_other = (\<lambda>c. [c]), title_other = (\<lambda>c. [c]),
                 final_sigma = (\<lambda>s i. False)\<rparr>"

text \<open>The order \<open>\<le>\<close> of Python strings: lexicographic on code points.\<close>

fun str_le :: "ustring \<Rightarrow> ustring \<Rightarrow> bool" where
  "str_le [] t = True"
| "str_le (x # xs) [] = False"
| "str_le (x # xs) (y # ys) = (x < y \<or> (x = y \<and> str_le xs ys))"

text \<open>\<open>sep.join(parts)\<close>.\<close>

fun join :: "ustring \<Rightarrow> ustring list \<Rightarrow> ustring" where
  "join sep [] = []"
| "join sep [w] = w"
| "join sep (w # v # ws) = w @ sep @ join sep (v # ws)"

section \<open>The secure random source\<close>

text \<open>
  The module \<open>secrets\<close> is not deterministic. A run is described by the sequence of the
  numbers that the successive calls of \<open>secrets.randbelow\<close> return: the list \<open>g\<close>, read from
  its head, a list that is used up standing for the sequence that goes on with zeros.
  \<open>randbelow n\<close> returns a number below \<open>n\<close>, so an entry \<open>r\<close> is read as \<open>r mod n\<close>: an
  entry below \<open>n\<close> is returned as it is, and every list describes a run. The source calls
  \<open>randbelow\<close> with a positive bound only (line 153, and inside \<open>choice\<close>).
\<close>

type_synonym rng = "nat list"

definition randbelow :: "nat \<Rightarrow> rng \<Rightarrow> nat \<times> rng" where
  "randbelow n g = (case g of [] \<Rightarrow> (0, []) | r # g' \<Rightarrow> (r mod n, g'))"

datatype error =
    EmptyCharset                          \<comment> \<open>ValueError: Character set is empty.\<close>
  | RequirementExceedsLength int int      \<comment> \<open>ValueError: Required characters (..) exceed length ..\<close>
  | EmptyRequiredPool ustring             \<comment> \<open>ValueError: Requirement for '..' but its character set is empty.\<close>
  | IndexError                            \<comment> \<open>\<open>secrets.choice\<close> of an empty sequence\<close>

text \<open>\<open>secrets.choice(seq)\<close> is \<open>seq[randbelow(len(seq))]\<close> and raises on an empty sequence.\<close>

definition choice :: "'a list \<Rightarrow> rng \<Rightarrow> error + ('a \<times> rng)" where
  "choice seq g =
     (if seq = [] then Inl IndexError
      else (let (k, g') = randbelow (length seq) g in Inr (seq ! k, g')))"

section \<open>Passwords with required characters\<close>

text \<open>\<open>for _ in range(n): pw_chars.append(secrets.choice(pool))\<close> (lines 144 and 148).\<close>

fun append_choices :: "nat \<Rightarrow> 'a list \<Rightarrow> 'a list \<Rightarrow> rng \<Rightarrow> error + ('a list \<times> rng)" where
  "append_choices 0 pool pw_chars g = Inr (pw_chars, g)"
| "append_choices (Suc n) pool pw_chars g =
     (case choice pool g of
        Inl e \<Rightarrow> Inl e
      | Inr (c, g') \<Rightarrow> append_choices n pool (pw_chars @ [c]) g')"

text \<open>
  A dictionary is read in the order of insertion: \<open>required\<close> is the list of its items,
  \<open>pools\<close> a map. \<open>pools.get(key, "")\<close> is \<open>pool_of pools key\<close>. \<open>range(n)\<close> is empty for a
  negative \<open>n\<close>, and \<open>if n\<close> holds for every \<open>n\<close> other than 0.
\<close>

definition pool_of :: "(ustring \<rightharpoonup> ustring) \<Rightarrow> ustring \<Rightarrow> ustring" where
  "pool_of pools key = (case pools key of None \<Rightarrow> [] | Some pool \<Rightarrow> pool)"

fun place_required ::
  "(ustring \<times> int) list \<Rightarrow> (ustring \<rightharpoonup> ustring) \<Rightarrow> ustring \<Rightarrow> rng \<Rightarrow> error + (ustring \<times> rng)" where
  "place_required [] pools pw_chars g = Inr (pw_chars, g)"
| "place_required ((key, n) # items) pools pw_chars g =
     (let pool = pool_of pools key in
      if n \<noteq> 0 \<and> pool = [] then Inl (EmptyRequiredPool key)
      else (case append_choices (nat n) pool pw_chars g of
              Inl e \<Rightarrow> Inl e
            | Inr (pw_chars', g') \<Rightarrow> place_required items pools pw_chars' g'))"

text \<open>
  The shuffle of lines 152 to 154. The tuple assignment reads both elements before it
  writes them. \<open>fisher_yates i\<close> is the loop from index \<open>i\<close> down to 1.
\<close>

definition swap :: "'a list \<Rightarrow> nat \<Rightarrow> nat \<Rightarrow> 'a list" where
  "swap xs i j = xs[i := xs ! j, j := xs ! i]"

fun fisher_yates :: "nat \<Rightarrow> 'a list \<Rightarrow> rng \<Rightarrow> 'a list \<times> rng" where
  "fisher_yates 0 pw_chars g = (pw_chars, g)"
| "fisher_yates (Suc i) pw_chars g =
     (let (j, g') = randbelow (Suc i + 1) g
      in fisher_yates i (swap pw_chars (Suc i) j) g')"

definition shuffle :: "'a list \<Rightarrow> rng \<Rightarrow> 'a list \<times> rng" where
  "shuffle pw_chars g = fisher_yates (length pw_chars - 1) pw_chars g"

definition total_required :: "(ustring \<times> int) list \<Rightarrow> int" where
  "total_required required = sum_list (map (\<lambda>(key, n). max 0 n) required)"

definition generate_with_requirements ::
  "int \<Rightarrow> (ustring \<rightharpoonup> ustring) \<Rightarrow> (ustring \<times> int) list \<Rightarrow> ustring \<Rightarrow> rng
     \<Rightarrow> error + (ustring \<times> rng)" where
  "generate_with_requirements len pools required full_charset g =
     (if full_charset = [] then Inl EmptyCharset
      else let total_req = total_required required in
        if total_req > len then Inl (RequirementExceedsLength total_req len)
        else (case place_required required pools [] g of
                Inl e \<Rightarrow> Inl e
              | Inr (pw_chars, g1) \<Rightarrow>
                  (case append_choices (nat (len - int (length pw_chars))) full_charset pw_chars g1 of
                     Inl e \<Rightarrow> Inl e
                   | Inr (pw_chars', g2) \<Rightarrow> Inr (shuffle pw_chars' g2))))"

text \<open>
  The draws of a shuffle of \<open>Suc i\<close> elements: one number for each index from \<open>i\<close> down to
  1, the one for index \<open>k\<close> in the range from 0 to \<open>k\<close>.
\<close>

fun valid_draws :: "nat \<Rightarrow> nat list \<Rightarrow> bool" where
  "valid_draws 0 js = (js = [])"
| "valid_draws (Suc i) [] = False"
| "valid_draws (Suc i) (j # js) = (j \<le> Suc i \<and> valid_draws i js)"

text \<open>
  The specification's shuffle: for index \<open>i\<close> from the last down to 1, with \<open>j\<close> the
  number drawn for \<open>i\<close>, elements \<open>i\<close> and \<open>j\<close> are swapped.
\<close>

definition spec_shuffle :: "'a list \<Rightarrow> nat list \<Rightarrow> 'a list" where
  "spec_shuffle xs js = fold (\<lambda>(i, j) ys. swap ys i j) (zip (rev [1..<length xs]) js) xs"

section \<open>Passphrases\<close>

text \<open>\<open>[secrets.choice(words) for _ in range(n_words)]\<close> (line 159).\<close>

fun choices :: "nat \<Rightarrow> 'a list \<Rightarrow> rng \<Rightarrow> error + ('a list \<times> rng)" where
  "choices 0 words g = Inr ([], g)"
| "choices (Suc n) words g =
     (case choice words g of
        Inl e \<Rightarrow> Inl e
      | Inr (w, g') \<Rightarrow>
          (case choices n words g' of
             Inl e \<Rightarrow> Inl e
           | Inr (ws, g'') \<Rightarrow> Inr (w # ws, g'')))"

definition generate_passphrase ::
  "ucd \<Rightarrow> int \<Rightarrow> ustring list \<Rightarrow> ustring \<Rightarrow> bool \<Rightarrow> rng \<Rightarrow> error + (ustring \<times> rng)" where
  "generate_passphrase U n_words words sep cap g =
     (case choices (nat n_words) words g of
        Inl e \<Rightarrow> Inl e
      | Inr (picks, g') \<Rightarrow>
          (let picks = (if cap then map (capitalize U) picks else picks)
           in Inr (join sep picks, g')))"

section \<open>Loading a word list\<close>

text \<open>
  The lines of a text file opened with universal newlines (line 636): a line ends with
  \<open>\n\<close>, \<open>\r\<close> or \<open>\r\n\<close>, each of them read as \<open>\n\<close>, and what follows the last line end
  is a line if it is not empty. \<open>after_cr\<close> tells that the character before was \<open>\r\<close>.
\<close>

fun file_lines :: "bool \<Rightarrow> ustring \<Rightarrow> ustring \<Rightarrow> ustring list" where
  "file_lines after_cr cur [] = (if cur = [] then [] else [cur])"
| "file_lines after_cr cur (c # cs) =
     (if c = 10 then
        (if after_cr then file_lines False cur cs
         else (cur @ [10]) # file_lines False [] cs)
      else if c = 13 then (cur @ [10]) # file_lines True [] cs
      else file_lines False (cur @ [c]) cs)"

text \<open>
  The test of line 641, with 39 the apostrophe and 45 the hyphen; \<open>ch\<close> is a string of
  one character.
\<close>

definition usable :: "ucd \<Rightarrow> ustring \<Rightarrow> bool" where
  "usable U w =
     list_all (\<lambda>ch. (str_le [97] (lower U [ch]) \<and> str_le (lower U [ch]) [122])
                     \<or> ch = 39 \<or> ch = 45) w"

fun collect_words :: "ucd \<Rightarrow> ustring list \<Rightarrow> ustring list \<Rightarrow> ustring list" where
  "collect_words U words [] = words"
| "collect_words U words (line # rest) =
     (let w = strip line in
      if w = [] then collect_words U words rest
      else if usable U w then collect_words U (words @ [lower U w]) rest
      else collect_words U words rest)"

datatype message =
    WordlistTooSmall                      \<comment> \<open>warning: fewer than 256 words\<close>
  | NoUsableWords                         \<comment> \<open>No usable words found in the selected file.\<close>
  | FailedToLoad                          \<comment> \<open>Failed to load wordlist: ..\<close>
  | EmptyVocabulary                       \<comment> \<open>No wordlist available. Load a wordlist first.\<close>
  | NoClassSelected                       \<comment> \<open>Please select at least one character class.\<close>
  | CharsetEmptyAfterExclusions           \<comment> \<open>The character set is empty after applying exclusions.\<close>
  | TotalRequiredExceedsLength int int    \<comment> \<open>Total required characters (..) exceed length ..\<close>
  | GenerationFailed error                \<comment> \<open>Generation failed: ..\<close>

text \<open>
  \<open>_load_wordlist_from_path\<close>. The file's text is \<open>Some text\<close>, decoded with the
  undecodable bytes dropped, or \<open>None\<close> when opening or reading it raises. The state is the
  field \<open>wordlist\<close> of the window. The result is the value returned, the field after the
  call and the message boxes shown, in order.
\<close>

definition load_wordlist_from_path ::
  "ucd \<Rightarrow> ustring option \<Rightarrow> ustring list \<Rightarrow> bool \<times> ustring list \<times> message list" where
  "load_wordlist_from_path U content wordlist =
     (case content of
        None \<Rightarrow> (False, wordlist, [FailedToLoad])
      | Some text \<Rightarrow>
          (let words = collect_words U [] (file_lines False [] text);
               filtered = dedup_loop {} [] words;
               shown = (if length filtered < 256 then [WordlistTooSmall] else [])
           in if filtered \<noteq> [] then (True, filtered, shown)
              else (False, wordlist, shown @ [NoUsableWords])))"

section \<open>The handler of the Generate button\<close>

text \<open>The values of the widgets that \<open>on_generate\<close> reads.\<close>

record settings =
  multiple :: bool
  spin_count :: int
  preset_index :: int
  spin_words :: int
  txt_separator :: ustring
  chk_capitalize :: bool
  chk_lower :: bool
  chk_upper :: bool
  chk_digits :: bool
  chk_symbols :: bool
  min_lower :: int
  min_upper :: int
  min_digits :: int
  min_symbols :: int
  chk_exclude_ambiguous :: bool
  txt_custom_symbols :: ustring
  spin_length :: int

text \<open>\<open>[generate(..) for _ in range(count)]\<close> (lines 699 and 758).\<close>

fun repeat_generate ::
  "nat \<Rightarrow> (rng \<Rightarrow> error + (ustring \<times> rng)) \<Rightarrow> rng \<Rightarrow> error + (ustring list \<times> rng)" where
  "repeat_generate 0 gen g = Inr ([], g)"
| "repeat_generate (Suc k) gen g =
     (case gen g of
        Inl e \<Rightarrow> Inl e
      | Inr (p, g') \<Rightarrow>
          (case repeat_generate k gen g' of
             Inl e \<Rightarrow> Inl e
           | Inr (ps, g'') \<Rightarrow> Inr (p # ps, g'')))"

definition class_pool :: "ustring \<Rightarrow> ustring \<Rightarrow> ustring" where
  "class_pool alphabet charset = filter (\<lambda>ch. ch \<in> set charset) alphabet"

text \<open>
  \<open>on_generate\<close>: \<open>Inl\<close> is the error shown, \<open>Inr passwords\<close> the list whose lines are put
  into the output field. An exception of the generation is caught and shown (line 761).
\<close>

definition on_generate ::
  "ucd \<Rightarrow> settings \<Rightarrow> ustring list \<Rightarrow> rng \<Rightarrow> message + ustring list" where
  "on_generate U s wordlist g =
     (let count = (if multiple s then spin_count s else 1) in
      if preset_index s = 4 then
        (let n = spin_words s;
             sep = (if txt_separator s \<noteq> [] then txt_separator s else ustr ''-'');
             cap = chk_capitalize s
         in if wordlist = [] then Inl EmptyVocabulary
            else (case repeat_generate (nat count) (generate_passphrase U n wordlist sep cap) g of
                    Inl e \<Rightarrow> Inl (GenerationFailed e)
                  | Inr (passwords, g') \<Rightarrow> Inr passwords))
      else if \<not> (chk_lower s \<or> chk_upper s \<or> chk_digits s \<or> chk_symbols s)
        then Inl NoClassSelected
      else
        (let charset = build_charset (chk_lower s) (chk_upper s) (chk_digits s) (chk_symbols s)
                         (txt_custom_symbols s) (chk_exclude_ambiguous s)
         in if charset = [] then Inl CharsetEmptyAfterExclusions
            else
              (let pools = Map.empty;
                   pools = (if chk_lower s
                            then pools(ustr ''lower'' \<mapsto> class_pool ascii_lowercase charset)
                            else pools);
                   pools = (if chk_upper s
                            then pools(ustr ''upper'' \<mapsto> class_pool ascii_uppercase charset)
                            else pools);
                   pools = (if chk_digits s
                            then pools(ustr ''digits'' \<mapsto> class_pool digits charset)
                            else pools);
                   pools = (if chk_symbols s
                            then pools(ustr ''symbols'' \<mapsto>
                                   class_pool (symbol_alphabet (txt_custom_symbols s)) charset)
                            else pools);
                   req = [(ustr ''lower'', if chk_lower s then min_lower s else 0),
                          (ustr ''upper'', if chk_upper s then min_upper s else 0),
                          (ustr ''digits'', if chk_digits s then min_digits s else 0),
                          (ustr ''symbols'', if chk_symbols s then min_symbols s else 0)];
                   total_req = sum_list (map snd req)
               in if total_req > spin_length s
                  then Inl (TotalRequiredExceedsLength total_req (spin_length s))
                  else (case repeat_generate (nat count)
                               (generate_with_requirements (spin_length s) pools req charset) g of
                          Inl e \<Rightarrow> Inl (GenerationFailed e)
                        | Inr (passwords, g') \<Rightarrow> Inr passwords))))"

section \<open>The entropy estimate\<close>

text \<open>
  A Python \<open>float\<close> is a double. Here it is a rational number or \<open>inf\<close>; the other
  doubles do not come up, for the factors of line 122 are positive.
\<close>

datatype pyfloat = Finite rat | Infinity

text \<open>
  The floating-point arithmetic of the interpreter is no part of the repository, and the
  two operations of line 122 are parameters of the model. \<open>math_log2 n\<close> is the double
  that \<open>math.log2(n)\<close> returns for an integer \<open>n\<close> above 0. \<open>int_times n x\<close> is \<open>n * x\<close> for an
  integer \<open>n\<close> and a double \<open>x\<close>: the integer is converted to a double, which raises
  \<open>OverflowError\<close> beyond the range of the doubles (the value \<open>None\<close>), and the product
  is rounded to a double, or is \<open>inf\<close>.
\<close>

record float_ops =
  math_log2 :: "int \<Rightarrow> rat"
  int_times :: "int \<Rightarrow> rat \<Rightarrow> pyfloat option"

text \<open>\<open>estimate_entropy_bits\<close> (lines 120 to 122); \<open>None\<close> is the exception raised.\<close>

definition estimate_entropy_bits :: "float_ops \<Rightarrow> int \<Rightarrow> int \<Rightarrow> pyfloat option" where
  "estimate_entropy_bits F len charset_size =
     (if len \<le> 0 \<or> charset_size \<le> 1 then Some (Finite 0)
      else int_times F len (math_log2 F charset_size))"

text \<open>
  The operations at the arguments of the examples below. \<open>math.log2\<close> returns 1 for 2, 2
  for 4 and the double \<open>0x1.95c01a39fbd68p+0\<close>, which is 892254565955501 / 2^49, for 3;
  the other entries of the table are not those of the interpreter and are not used. The
  product of an integer and a double is exact whenever the exact product is a double, as
  it is in the examples.
\<close>

definition example_float_ops :: float_ops where
  "example_float_ops =
     \<lparr>math_log2 = (\<lambda>n. if n = 3 then 892254565955501 / 562949953421312
                          else if n = 4 then 2 else 1),
      int_times = (\<lambda>n x. Some (Finite (of_int n * x)))\<rparr>"

section \<open>Properties of the character set\<close>

lemma first_occurrences_set: "set (first_occurrences xs) = set xs"
  by (induction xs rule: first_occurrences.induct) auto

lemma first_occurrences_distinct: "distinct (first_occurrences xs)"
  by (induction xs rule: first_occurrences.induct) (auto simp: first_occurrences_set)

lemma first_occurrences_subseq: "subseq (first_occurrences xs) xs"
proof (induction xs rule: first_occurrences.induct)
  case 1
  show ?case by simp
next
  case (2 x xs)
  have "subseq (filter (\<lambda>y. y \<noteq> x) xs) xs"
    by simp
  with 2 have "subseq (first_occurrences (filter (\<lambda>y. y \<noteq> x) xs)) xs"
    by (rule subseq_order.trans)
  then show ?case by simp
qed

lemma first_occurrences_filter:
  "first_occurrences (filter P xs) = filter P (first_occurrences xs)"
proof (induction xs rule: first_occurrences.induct)
  case 1
  show ?case by simp
next
  case (2 x xs)
  have swap: "filter (\<lambda>y. y \<noteq> x) (filter P xs) = filter P (filter (\<lambda>y. y \<noteq> x) xs)"
    by (simp add: conj_commute)
  show ?case
  proof (cases "P x")
    case True
    with 2 swap show ?thesis by simp
  next
    case False
    have "filter P (filter (\<lambda>y. y \<noteq> x) xs) = filter P xs"
      using False by (auto intro: filter_cong)
    with 2 False swap show ?thesis by simp
  qed
qed

lemma dedup_loop_first_occurrences:
  "dedup_loop seen out xs = out @ first_occurrences (filter (\<lambda>x. x \<notin> seen) xs)"
proof (induction xs arbitrary: seen out)
  case Nil
  show ?case by simp
next
  case (Cons x xs)
  have "filter (\<lambda>y. y \<noteq> x) (filter (\<lambda>y. y \<notin> seen) xs) = filter (\<lambda>y. y \<notin> insert x seen) xs"
    by (auto intro: filter_cong)
  with Cons show ?case by simp
qed

lemma build_charset_refines:
  "build_charset lw up dg sy custom ex =
     first_occurrences (if ex then filter (\<lambda>ch. ch \<notin> AMBIGUOUS) (class_concat lw up dg sy custom)
                        else class_concat lw up dg sy custom)"
  by (simp add: build_charset_def class_concat_def dedup_loop_first_occurrences)


section \<open>The character set is duplicate free and ordered by class\<close>


lemma build_charset_example:
  "build_charset True False False False [] False = ustr ''abcdefghijklmnopqrstuvwxyz''"
  by code_simp

text \<open>
  Claim C4. For all inclusion flags, every custom symbol string and both values of the
  exclusion flag, the character set has no duplicate, holds exactly the characters of the
  concatenated class alphabets (less the ambiguous ones when the flag is set), is a
  subsequence of that concatenation, and is the concatenation with the ambiguous
  characters dropped first and each character then kept at its first occurrence. With
  the flag set no ambiguous character is left. For the lowercase class alone the result
  is the 26 lowercase letters in order.
\<close>

theorem build_charset_unique_ordered:
  "distinct (build_charset lw up dg sy custom ex) \<and>
   set (build_charset lw up dg sy custom ex) =
     set (class_concat lw up dg sy custom) - (if ex then AMBIGUOUS else {}) \<and>
   subseq (build_charset lw up dg sy custom ex) (class_concat lw up dg sy custom) \<and>
   build_charset lw up dg sy custom ex =
     first_occurrences (if ex then filter (\<lambda>ch. ch \<notin> AMBIGUOUS) (class_concat lw up dg sy custom)
                        else class_concat lw up dg sy custom) \<and>
   (ex \<longrightarrow> set (build_charset lw up dg sy custom ex) \<inter> AMBIGUOUS = {}) \<and>
   build_charset True False False False [] False = ustr ''abcdefghijklmnopqrstuvwxyz'' \<and>
   length (build_charset True False False False [] False) = 26"
proof -
  let ?cat = "class_concat lw up dg sy custom"
  let ?kept = "if ex then filter (\<lambda>ch. ch \<notin> AMBIGUOUS) ?cat else ?cat"
  have eq: "build_charset lw up dg sy custom ex = first_occurrences ?kept"
    by (rule build_charset_refines)
  have d: "distinct (build_charset lw up dg sy custom ex)"
    unfolding eq by (rule first_occurrences_distinct)
  have s: "set (build_charset lw up dg sy custom ex) = set ?cat - (if ex then AMBIGUOUS else {})"
    unfolding eq first_occurrences_set by auto
  have "subseq (first_occurrences ?kept) ?kept"
    by (rule first_occurrences_subseq)
  moreover have "subseq ?kept ?cat"
    by simp
  ultimately have q: "subseq (build_charset lw up dg sy custom ex) ?cat"
    unfolding eq by (rule subseq_order.trans)
  have a: "ex \<longrightarrow> set (build_charset lw up dg sy custom ex) \<inter> AMBIGUOUS = {}"
    unfolding s by auto
  have l: "length (build_charset True False False False [] False) = 26"
    unfolding build_charset_example by (simp add: ustr_def)
  from d s q eq a build_charset_example l show ?thesis
    by blast
qed

theorem build_charset_unique_ordered_witness:
  "distinct (build_charset True True True True (ustr ''a#b '') True) \<and>
   set (build_charset True True True True (ustr ''a#b '') True) \<inter> AMBIGUOUS = {}"
  using build_charset_unique_ordered [of True True True True "ustr ''a#b ''" True]
  by blast

section \<open>The shuffle\<close>


lemma randbelow_Cons: "randbelow n (r # g) = (r mod n, g)"
  by (simp add: randbelow_def)

lemma randbelow_Nil: "randbelow n [] = (0, [])"
  by (simp add: randbelow_def)

lemma randbelow_less: "0 < n \<Longrightarrow> fst (randbelow n g) < n"
  by (cases g) (simp_all add: randbelow_def)

lemma length_swap: "length (swap xs i j) = length xs"
  by (simp add: swap_def)

lemma swap_append:
  "i < length as \<Longrightarrow> j < length as \<Longrightarrow> swap (as @ bs) i j = swap as i j @ bs"
  by (simp add: swap_def list_update_append1 nth_append)

lemma swap_nth_first: "i < length xs \<Longrightarrow> j < length xs \<Longrightarrow> swap xs i j ! i = xs ! j"
  by (cases "i = j") (simp_all add: swap_def)

lemma mset_swap_eq: "i < length xs \<Longrightarrow> j < length xs \<Longrightarrow> mset (swap xs i j) = mset xs"
  unfolding swap_def by (rule mset_swap)

lemma map_swap:
  "i < length xs \<Longrightarrow> j < length xs \<Longrightarrow> swap (map f xs) i j = map f (swap xs i j)"
  by (simp add: swap_def map_update)

lemma length_fisher_yates: "length (fst (fisher_yates i xs g)) = length xs"
proof (induction i arbitrary: xs g)
  case 0
  show ?case by simp
next
  case (Suc i)
  obtain j g' where r: "randbelow (Suc i + 1) g = (j, g')"
    by (cases "randbelow (Suc i + 1) g")
  show ?case
    using Suc [of "swap xs (Suc i) j" g'] r by (simp add: length_swap)
qed

lemma fisher_yates_append:
  "i < length as \<Longrightarrow>
   fisher_yates i (as @ bs) g = (fst (fisher_yates i as g) @ bs, snd (fisher_yates i as g))"
proof (induction i arbitrary: as g)
  case 0
  show ?case by simp
next
  case (Suc i)
  obtain j g' where r: "randbelow (Suc i + 1) g = (j, g')"
    by (cases "randbelow (Suc i + 1) g")
  have "fst (randbelow (Suc i + 1) g) < Suc i + 1"
    by (rule randbelow_less) simp
  with r Suc.prems have j: "j < length as"
    by simp
  have "swap (as @ bs) (Suc i) j = swap as (Suc i) j @ bs"
    using Suc.prems j by (rule swap_append)
  moreover have "i < length (swap as (Suc i) j)"
    using Suc.prems by (simp add: length_swap)
  ultimately show ?case
    using Suc.IH [of "swap as (Suc i) j" g'] r by simp
qed

lemma fisher_yates_map:
  "i < length xs \<Longrightarrow>
   fisher_yates i (map f xs) g = (map f (fst (fisher_yates i xs g)), snd (fisher_yates i xs g))"
proof (induction i arbitrary: xs g)
  case 0
  show ?case by simp
next
  case (Suc i)
  obtain j g' where r: "randbelow (Suc i + 1) g = (j, g')"
    by (cases "randbelow (Suc i + 1) g")
  have "fst (randbelow (Suc i + 1) g) < Suc i + 1"
    by (rule randbelow_less) simp
  with r Suc.prems have j: "j < length xs"
    by simp
  have "swap (map f xs) (Suc i) j = map f (swap xs (Suc i) j)"
    using Suc.prems j by (rule map_swap)
  moreover have "i < length (swap xs (Suc i) j)"
    using Suc.prems by (simp add: length_swap)
  ultimately show ?case
    using Suc.IH [of "swap xs (Suc i) j" g'] r by simp
qed

lemma shuffle_map: "fst (shuffle (map f xs) g) = map f (fst (shuffle xs g))"
proof (cases xs)
  case Nil
  then show ?thesis by (simp add: shuffle_def)
next
  case (Cons x xs')
  then have "length xs - 1 < length xs" by simp
  then show ?thesis
    by (simp add: shuffle_def fisher_yates_map)
qed

lemma shuffle_positions:
  "fst (shuffle xs g) = map ((!) xs) (fst (shuffle [0..<length xs] g))"
proof -
  have "xs = map ((!) xs) [0..<length xs]"
    by (simp add: map_nth)
  then have "fst (shuffle xs g) = fst (shuffle (map ((!) xs) [0..<length xs]) g)"
    by simp
  then show ?thesis
    by (simp only: shuffle_map)
qed

lemma fisher_yates_step:
  assumes len: "length xs = Suc (Suc i)" and j: "j \<le> Suc i"
  shows "fst (fisher_yates (Suc i) xs (j # js)) =
         fst (fisher_yates i (take (Suc i) (swap xs (Suc i) j)) js) @ [xs ! j]"
proof -
  let ?ys = "swap xs (Suc i) j"
  have l: "length ?ys = Suc (Suc i)"
    using len by (simp add: length_swap)
  have "?ys ! Suc i = xs ! j"
    using len j by (intro swap_nth_first) simp_all
  with l have split: "?ys = take (Suc i) ?ys @ [xs ! j]"
    by (metis lessI take_Suc_conv_app_nth take_all order_refl)
  have m: "j mod Suc (Suc i) = j"
    using j by simp
  have "fst (fisher_yates (Suc i) xs (j # js)) = fst (fisher_yates i ?ys js)"
    by (simp add: randbelow_Cons m)
  also have "\<dots> = fst (fisher_yates i (take (Suc i) ?ys @ [xs ! j]) js)"
    using split by simp
  also have "\<dots> = fst (fisher_yates i (take (Suc i) ?ys) js) @ [xs ! j]"
    using l by (subst fisher_yates_append) simp_all
  finally show ?thesis .
qed

lemma fisher_yates_unique_draws:
  "length xs = Suc i \<Longrightarrow> distinct xs \<Longrightarrow> mset ys = mset xs \<Longrightarrow>
   \<exists>!js. valid_draws i js \<and> fst (fisher_yates i xs js) = ys"
proof (induction i arbitrary: xs ys)
  case 0
  then obtain x where xs: "xs = [x]"
    by (cases xs) simp_all
  with 0 have "ys = [x]"
    by simp
  with xs show ?case
    by auto
next
  case (Suc i)
  have ne: "ys \<noteq> []"
    using Suc.prems by auto
  define y where "y = last ys"
  define ys' where "ys' = butlast ys"
  have ys: "ys = ys' @ [y]"
    using ne by (simp add: y_def ys'_def)
  have "y \<in> set xs"
    using Suc.prems(3) ys by (metis in_set_conv_decomp mset_eq_setD)
  then obtain j where j: "j < length xs" "xs ! j = y"
    by (auto simp: in_set_conv_nth)
  have jle: "j \<le> Suc i"
    using j Suc.prems(1) by simp
  let ?zs = "\<lambda>k. take (Suc i) (swap xs (Suc i) k)"
  have zs_props: "length (?zs k) = Suc i \<and> distinct (?zs k) \<and> mset (?zs k) + {#xs ! k#} = mset xs"
    if k: "k \<le> Suc i" for k
  proof -
    let ?sw = "swap xs (Suc i) k"
    have l: "length ?sw = Suc (Suc i)"
      using Suc.prems(1) by (simp add: length_swap)
    have m: "mset ?sw = mset xs"
      using Suc.prems(1) k by (intro mset_swap_eq) simp_all
    have "?sw ! Suc i = xs ! k"
      using Suc.prems(1) k by (intro swap_nth_first) simp_all
    with l have split: "?sw = ?zs k @ [xs ! k]"
      by (metis lessI take_Suc_conv_app_nth take_all order_refl)
    have "distinct ?sw"
      using m Suc.prems(2) by (metis mset_eq_imp_distinct_iff)
    then have d: "distinct (?zs k)"
      by (rule distinct_take)
    have "mset (?zs k) + {#xs ! k#} = mset ?sw"
      by (subst (2) split) simp
    with m l d show ?thesis
      by simp
  qed
  have "mset (?zs j) + {#y#} = mset ys' + {#y#}"
    using zs_props [OF jle] j Suc.prems(3) ys by simp
  then have mz: "mset ys' = mset (?zs j)"
    by simp
  from zs_props [OF jle] mz
  have "\<exists>!js. valid_draws i js \<and> fst (fisher_yates i (?zs j) js) = ys'"
    by (intro Suc.IH) simp_all
  then obtain js' where js': "valid_draws i js'" "fst (fisher_yates i (?zs j) js') = ys'"
    and uniq: "\<And>ks. valid_draws i ks \<Longrightarrow> fst (fisher_yates i (?zs j) ks) = ys' \<Longrightarrow> ks = js'"
    by blast
  show ?case
  proof (rule ex1I [of _ "j # js'"])
    show "valid_draws (Suc i) (j # js') \<and> fst (fisher_yates (Suc i) xs (j # js')) = ys"
      using js' jle j ys fisher_yates_step [OF Suc.prems(1) jle, of js'] by simp
  next
    fix ks
    assume a: "valid_draws (Suc i) ks \<and> fst (fisher_yates (Suc i) xs ks) = ys"
    then obtain k ks' where ks: "ks = k # ks'" "k \<le> Suc i" "valid_draws i ks'"
      by (cases ks) auto
    from a ks fisher_yates_step [OF Suc.prems(1) ks(2), of ks']
    have e: "fst (fisher_yates i (?zs k) ks') @ [xs ! k] = ys' @ [y]"
      using ys by simp
    then have "xs ! k = xs ! j"
      using j by simp
    then have kj: "k = j"
      using Suc.prems(1,2) ks(2) j(1) by (simp add: nth_eq_iff_index_eq)
    with e have "fst (fisher_yates i (?zs j) ks') = ys'"
      by simp
    with ks(3) have "ks' = js'"
      by (rule uniq)
    with kj ks show "ks = j # js'"
      by simp
  qed
qed

lemma shuffle_unique_draws:
  assumes "distinct xs" and "mset ys = mset xs"
  shows "\<exists>!js. valid_draws (length xs - 1) js \<and> fst (shuffle xs js) = ys"
proof (cases xs)
  case Nil
  with assms show ?thesis
    by (auto simp: shuffle_def)
next
  case (Cons x xs')
  then have "length xs = Suc (length xs - 1)"
    by simp
  from fisher_yates_unique_draws [OF this assms]
  show ?thesis
    by (simp add: shuffle_def)
qed



lemma fisher_yates_spec:
  "valid_draws i js \<Longrightarrow>
   fisher_yates i xs js = (fold (\<lambda>(i, j) ys. swap ys i j) (zip (rev [1..<Suc i]) js) xs, [])"
proof (induction i arbitrary: xs js)
  case 0
  then show ?case by simp
next
  case (Suc i)
  then obtain j js' where js: "js = j # js'" "j \<le> Suc i" "valid_draws i js'"
    by (cases js) auto
  have m: "j mod Suc (Suc i) = j"
    using js(2) by simp
  have r: "rev [1..<Suc (Suc i)] = Suc i # rev [1..<Suc i]"
    by simp
  show ?case
    unfolding js(1) r using Suc.IH [OF js(3), of "swap xs (Suc i) j"]
    by (simp add: randbelow_Cons m)
qed

lemma shuffle_spec:
  assumes "valid_draws (length xs - 1) js"
  shows "shuffle xs js = (spec_shuffle xs js, [])"
proof (cases xs)
  case Nil
  with assms show ?thesis
    by (simp add: shuffle_def spec_shuffle_def)
next
  case (Cons x xs')
  then have e: "Suc (length xs - 1) = length xs"
    by simp
  from fisher_yates_spec [OF assms, of xs]
  have "fisher_yates (length xs - 1) xs js =
          (fold (\<lambda>(i, j) ys. swap ys i j) (zip (rev [1..<length xs]) js) xs, [])"
    by (simp only: e)
  then show ?thesis
    by (simp only: shuffle_def spec_shuffle_def)
qed

text \<open>
  Claim C2, as amended. The shuffle of \<open>generate_with_requirements\<close> is the specified
  procedure: with one draw \<open>j\<close> in the range from 0 to \<open>i\<close> for each index \<open>i\<close> from the
  last down to 1, it swaps elements \<open>i\<close> and \<open>j\<close> in that order and uses up exactly these
  draws. The result is the drawn sequence read through the shuffled list of its
  positions, and each permutation of the positions is produced by exactly one vector of
  draws. When the drawn characters are pairwise distinct, each arrangement of them is
  produced by exactly one vector of draws.
\<close>

theorem shuffle_fisher_yates_positions:
  "(\<forall>js. valid_draws (length xs - 1) js \<longrightarrow> shuffle xs js = (spec_shuffle xs js, [])) \<and>
   (\<forall>g. fst (shuffle xs g) = map ((!) xs) (fst (shuffle [0..<length xs] g))) \<and>
   (\<forall>p. mset p = mset [0..<length xs] \<longrightarrow>
      (\<exists>!js. valid_draws (length xs - 1) js \<and> fst (shuffle [0..<length xs] js) = p)) \<and>
   (distinct xs \<longrightarrow> (\<forall>ys. mset ys = mset xs \<longrightarrow>
      (\<exists>!js. valid_draws (length xs - 1) js \<and> fst (shuffle xs js) = ys)))"
proof (intro conjI allI impI)
  fix js
  assume "valid_draws (length xs - 1) js"
  then show "shuffle xs js = (spec_shuffle xs js, [])"
    by (rule shuffle_spec)
next
  fix g
  show "fst (shuffle xs g) = map ((!) xs) (fst (shuffle [0..<length xs] g))"
    by (rule shuffle_positions)
next
  fix p :: "nat list"
  assume "mset p = mset [0..<length xs]"
  with shuffle_unique_draws [of "[0..<length xs]" p]
  show "\<exists>!js. valid_draws (length xs - 1) js \<and> fst (shuffle [0..<length xs] js) = p"
    by simp
next
  fix ys
  assume "distinct xs" and "mset ys = mset xs"
  then show "\<exists>!js. valid_draws (length xs - 1) js \<and> fst (shuffle xs js) = ys"
    by (rule shuffle_unique_draws)
qed

theorem shuffle_fisher_yates_positions_witness:
  "valid_draws (length (ustr ''abc'') - 1) [1, 0] \<and>
   shuffle (ustr ''abc'') [1, 0] = (spec_shuffle (ustr ''abc'') [1, 0], []) \<and>
   mset [1, 2, 0] = mset [0..<length (ustr ''abc'')] \<and>
   (\<exists>!js. valid_draws (length (ustr ''abc'') - 1) js \<and>
           fst (shuffle [0..<length (ustr ''abc'')] js) = [1, 2, 0]) \<and>
   distinct (ustr ''abc'') \<and> mset (ustr ''bca'') = mset (ustr ''abc'') \<and>
   (\<exists>!js. valid_draws (length (ustr ''abc'') - 1) js \<and>
           fst (shuffle (ustr ''abc'') js) = ustr ''bca'')"
proof -
  have v: "valid_draws (length (ustr ''abc'') - 1) [1, 0]"
    by code_simp
  have p: "mset [1, 2, 0] = mset [0..<length (ustr ''abc'')]"
    by (simp add: ustr_def upt_rec)
  have d: "distinct (ustr ''abc'')"
    by (simp add: ustr_def)
  have m: "mset (ustr ''bca'') = mset (ustr ''abc'')"
    by (simp add: ustr_def)
  note T = shuffle_fisher_yates_positions [of "ustr ''abc''"]
  have t1: "shuffle (ustr ''abc'') [1, 0] = (spec_shuffle (ustr ''abc'') [1, 0], [])"
    using T v by blast
  have t2: "\<exists>!js. valid_draws (length (ustr ''abc'') - 1) js \<and>
                 fst (shuffle [0..<length (ustr ''abc'')] js) = [1, 2, 0]"
    using T p by blast
  have t3: "\<exists>!js. valid_draws (length (ustr ''abc'') - 1) js \<and>
                 fst (shuffle (ustr ''abc'') js) = ustr ''bca''"
    using T d m by blast
  from v t1 p t2 d m t3 show ?thesis
    by (intro conjI)
qed

text \<open>
  With a repeated character the arrangements of the drawn multiset are fewer than the
  vectors of draws: the two vectors for the drawn sequence \<open>aa\<close> give the same string.
\<close>

theorem shuffle_repeated_characters_counterexample:
  "valid_draws (length (ustr ''aa'') - 1) [0] \<and> valid_draws (length (ustr ''aa'') - 1) [1] \<and>
   fst (shuffle (ustr ''aa'') [0]) = ustr ''aa'' \<and> fst (shuffle (ustr ''aa'') [1]) = ustr ''aa''"
  by code_simp



section \<open>Properties of the password generator\<close>


lemma choice_ok:
  assumes "seq \<noteq> []"
  shows "\<exists>c g'. choice seq g = Inr (c, g') \<and> c \<in> set seq"
proof -
  obtain k g' where r: "randbelow (length seq) g = (k, g')"
    by (cases "randbelow (length seq) g")
  have "fst (randbelow (length seq) g) < length seq"
    using assms by (intro randbelow_less) simp
  with r have "k < length seq"
    by simp
  then have "seq ! k \<in> set seq"
    by (rule nth_mem)
  with assms r show ?thesis
    by (simp add: choice_def)
qed

lemma append_choices_ok:
  "n = 0 \<or> pool \<noteq> [] \<Longrightarrow>
   \<exists>cs g'. append_choices n pool acc g = Inr (acc @ cs, g') \<and> length cs = n \<and> set cs \<subseteq> set pool"
proof (induction n arbitrary: acc g)
  case 0
  show ?case by simp
next
  case (Suc n)
  then have ne: "pool \<noteq> []"
    by simp
  from choice_ok [OF ne, of g] obtain c g1 where c: "choice pool g = Inr (c, g1)" "c \<in> set pool"
    by blast
  from Suc.IH [of "acc @ [c]" g1] ne
  obtain cs g' where cs: "append_choices n pool (acc @ [c]) g1 = Inr ((acc @ [c]) @ cs, g')"
      "length cs = n" "set cs \<subseteq> set pool"
    by blast
  have "append_choices (Suc n) pool acc g = Inr (acc @ (c # cs), g')"
    using c(1) cs(1) by simp
  moreover have "length (c # cs) = Suc n" "set (c # cs) \<subseteq> set pool"
    using c(2) cs(2,3) by simp_all
  ultimately show ?case
    by blast
qed

lemma total_required_Cons:
  "total_required ((key, n) # items) = max 0 n + total_required items"
  by (simp add: total_required_def)

lemma total_required_nonneg: "0 \<le> total_required items"
  by (induction items) (auto simp: total_required_def)

lemma sum_le_total_required: "sum_list (map snd items) \<le> total_required items"
  by (induction items) (auto simp: total_required_def)

lemma place_required_ok:
  "\<forall>(key, n) \<in> set items. n \<noteq> 0 \<longrightarrow> pool_of pools key \<noteq> [] \<Longrightarrow>
   \<exists>added g'. place_required items pools acc g = Inr (acc @ added, g') \<and>
      int (length added) = total_required items \<and>
      set added \<subseteq> (\<Union>(key, n) \<in> set items. set (pool_of pools key)) \<and>
      (\<forall>(key, n) \<in> set items.
          n \<le> int (length (filter (\<lambda>ch. ch \<in> set (pool_of pools key)) added)))"
proof (induction items arbitrary: acc g)
  case Nil
  show ?case by (simp add: total_required_def)
next
  case (Cons item items)
  obtain key n where item: "item = (key, n)"
    by (cases item)
  let ?pool = "pool_of pools key"
  from Cons.prems item have pool: "n \<noteq> 0 \<longrightarrow> ?pool \<noteq> []"
    by simp
  then have "nat n = 0 \<or> ?pool \<noteq> []"
    by auto
  from append_choices_ok [OF this, of acc g]
  obtain cs g1 where cs: "append_choices (nat n) ?pool acc g = Inr (acc @ cs, g1)"
      "length cs = nat n" "set cs \<subseteq> set ?pool"
    by blast
  from Cons.prems have "\<forall>(key, n) \<in> set items. n \<noteq> 0 \<longrightarrow> pool_of pools key \<noteq> []"
    by simp
  from Cons.IH [OF this, of "acc @ cs" g1]
  obtain rest g' where rest: "place_required items pools (acc @ cs) g1 = Inr ((acc @ cs) @ rest, g')"
      "int (length rest) = total_required items"
      "set rest \<subseteq> (\<Union>(key, n) \<in> set items. set (pool_of pools key))"
      "\<forall>(key, n) \<in> set items.
          n \<le> int (length (filter (\<lambda>ch. ch \<in> set (pool_of pools key)) rest))"
    by blast
  have run: "place_required (item # items) pools acc g = Inr (acc @ (cs @ rest), g')"
    using item pool cs(1) rest(1) by (auto simp: Let_def)
  have len: "int (length (cs @ rest)) = total_required (item # items)"
    using item cs(2) rest(2) by (simp add: total_required_Cons)
  have sub: "set (cs @ rest) \<subseteq> (\<Union>(key, n) \<in> set (item # items). set (pool_of pools key))"
    using item cs(3) rest(3) by auto
  have "filter (\<lambda>ch. ch \<in> set ?pool) cs = cs"
    using cs(3) by (auto intro: filter_True)
  then have head: "n \<le> int (length (filter (\<lambda>ch. ch \<in> set ?pool) (cs @ rest)))"
    using cs(2) by simp
  have tail: "\<forall>(key, n) \<in> set items.
      n \<le> int (length (filter (\<lambda>ch. ch \<in> set (pool_of pools key)) (cs @ rest)))"
    using rest(4) by fastforce
  from head tail item
  have cnt: "\<forall>(key, n) \<in> set (item # items).
      n \<le> int (length (filter (\<lambda>ch. ch \<in> set (pool_of pools key)) (cs @ rest)))"
    by simp
  from run len sub cnt show ?case
    by blast
qed

lemma place_required_empty_pool:
  "\<exists>(key, n) \<in> set items. n \<noteq> 0 \<and> pool_of pools key = [] \<Longrightarrow>
   \<exists>key. place_required items pools acc g = Inl (EmptyRequiredPool key) \<and>
         key \<in> fst ` set items \<and> pool_of pools key = []"
proof (induction items arbitrary: acc g)
  case Nil
  then show ?case by simp
next
  case (Cons item items)
  obtain key n where item: "item = (key, n)"
    by (cases item)
  show ?case
  proof (cases "n \<noteq> 0 \<and> pool_of pools key = []")
    case True
    with item show ?thesis
      by auto
  next
    case False
    with Cons.prems item
    have later: "\<exists>(key, n) \<in> set items. n \<noteq> 0 \<and> pool_of pools key = []"
      by auto
    from False have "nat n = 0 \<or> pool_of pools key \<noteq> []"
      by auto
    from append_choices_ok [OF this, of acc g]
    obtain cs g1 where cs: "append_choices (nat n) (pool_of pools key) acc g = Inr (acc @ cs, g1)"
      by blast
    from Cons.IH [OF later, of "acc @ cs" g1]
    obtain key' where k: "place_required items pools (acc @ cs) g1 = Inl (EmptyRequiredPool key')"
        "key' \<in> fst ` set items" "pool_of pools key' = []"
      by blast
    have "place_required (item # items) pools acc g = Inl (EmptyRequiredPool key')"
      using False item cs k(1) by (auto simp: Let_def)
    moreover have "key' \<in> fst ` set (item # items)"
      using k(2) by auto
    ultimately show ?thesis
      using k(3) by blast
  qed
qed

lemma mset_fisher_yates:
  "i < length xs \<Longrightarrow> mset (fst (fisher_yates i xs g)) = mset xs"
proof (induction i arbitrary: xs g)
  case 0
  show ?case by simp
next
  case (Suc i)
  obtain j g' where r: "randbelow (Suc i + 1) g = (j, g')"
    by (cases "randbelow (Suc i + 1) g")
  have "fst (randbelow (Suc i + 1) g) < Suc i + 1"
    by (rule randbelow_less) simp
  with r Suc.prems have j: "j < length xs"
    by simp
  have "mset (swap xs (Suc i) j) = mset xs"
    using Suc.prems j by (rule mset_swap_eq)
  moreover have "i < length (swap xs (Suc i) j)"
    using Suc.prems by (simp add: length_swap)
  ultimately show ?case
    using Suc.IH [of "swap xs (Suc i) j" g'] r by simp
qed

lemma mset_shuffle: "mset (fst (shuffle xs g)) = mset xs"
proof (cases xs)
  case Nil
  then show ?thesis by (simp add: shuffle_def)
next
  case (Cons x xs')
  then have "length xs - 1 < length xs"
    by simp
  then show ?thesis
    unfolding shuffle_def by (rule mset_fisher_yates)
qed

lemma length_filter_mset_eq:
  "mset xs = mset ys \<Longrightarrow> length (filter P xs) = length (filter P ys)"
  by (metis mset_filter size_mset)

lemma generate_with_requirements_ok:
  assumes cs: "full_charset \<noteq> []"
    and sub: "\<forall>(key, n) \<in> set required. set (pool_of pools key) \<subseteq> set full_charset"
    and ne: "\<forall>(key, n) \<in> set required. n \<noteq> 0 \<longrightarrow> pool_of pools key \<noteq> []"
    and fit: "total_required required \<le> len"
  shows "\<exists>pw g'. generate_with_requirements len pools required full_charset g = Inr (pw, g') \<and>
           int (length pw) = len \<and> set pw \<subseteq> set full_charset \<and>
           (\<forall>(key, n) \<in> set required.
               n \<le> int (length (filter (\<lambda>ch. ch \<in> set (pool_of pools key)) pw)))"
proof -
  from place_required_ok [OF ne, of "[]" g]
  obtain added g1 where added: "place_required required pools [] g = Inr (added, g1)"
      "int (length added) = total_required required"
      "set added \<subseteq> (\<Union>(key, n) \<in> set required. set (pool_of pools key))"
      "\<forall>(key, n) \<in> set required.
          n \<le> int (length (filter (\<lambda>ch. ch \<in> set (pool_of pools key)) added))"
    by auto
  from cs have "nat (len - int (length added)) = 0 \<or> full_charset \<noteq> []"
    by simp
  from append_choices_ok [OF this, of added g1]
  obtain fill g2 where fill:
      "append_choices (nat (len - int (length added))) full_charset added g1 = Inr (added @ fill, g2)"
      "length fill = nat (len - int (length added))" "set fill \<subseteq> set full_charset"
    by blast
  let ?pw = "fst (shuffle (added @ fill) g2)"
  have m: "mset ?pw = mset (added @ fill)"
    by (rule mset_shuffle)
  have run: "generate_with_requirements len pools required full_charset g =
               Inr (?pw, snd (shuffle (added @ fill) g2))"
    using cs fit added(1) fill(1) by (simp add: generate_with_requirements_def)
  have "length ?pw = length (added @ fill)"
    using m by (rule mset_eq_length)
  then have len: "int (length ?pw) = len"
    using added(2) fill(2) fit by simp
  have "set added \<subseteq> set full_charset"
    using added(3) sub by blast
  moreover have "set ?pw = set (added @ fill)"
    using m by (rule mset_eq_setD)
  ultimately have mem: "set ?pw \<subseteq> set full_charset"
    using fill(3) by simp
  have cnt: "\<forall>(key, n) \<in> set required.
      n \<le> int (length (filter (\<lambda>ch. ch \<in> set (pool_of pools key)) ?pw))"
  proof (clarify)
    fix key n
    assume kn: "(key, n) \<in> set required"
    let ?P = "\<lambda>ch. ch \<in> set (pool_of pools key)"
    have "n \<le> int (length (filter ?P added))"
      using added(4) kn by auto
    also have "\<dots> \<le> int (length (filter ?P (added @ fill)))"
      by simp
    also have "\<dots> = int (length (filter ?P ?pw))"
      using length_filter_mset_eq [OF m, of ?P] by simp
    finally show "n \<le> int (length (filter ?P ?pw))" .
  qed
  from run len mem cnt show ?thesis
    by blast
qed

text \<open>The check of lines 749 to 756, which stops the handler before any password is generated.\<close>

lemma on_generate_total_exceeds:
  assumes "preset_index s \<noteq> 4"
    and "chk_lower s \<or> chk_upper s \<or> chk_digits s \<or> chk_symbols s"
    and "build_charset (chk_lower s) (chk_upper s) (chk_digits s) (chk_symbols s)
           (txt_custom_symbols s) (chk_exclude_ambiguous s) \<noteq> []"
    and "spin_length s <
           (if chk_lower s then min_lower s else 0) + (if chk_upper s then min_upper s else 0) +
           (if chk_digits s then min_digits s else 0) + (if chk_symbols s then min_symbols s else 0)"
  shows "on_generate U s wordlist g =
           Inl (TotalRequiredExceedsLength
                  ((if chk_lower s then min_lower s else 0) + (if chk_upper s then min_upper s else 0) +
                   (if chk_digits s then min_digits s else 0) +
                   (if chk_symbols s then min_symbols s else 0))
                  (spin_length s))"
proof -
  let ?total = "(if chk_lower s then min_lower s else 0) + (if chk_upper s then min_upper s else 0) +
                (if chk_digits s then min_digits s else 0) + (if chk_symbols s then min_symbols s else 0)"
  have "sum_list (map snd [(ustr ''lower'', if chk_lower s then min_lower s else 0),
                           (ustr ''upper'', if chk_upper s then min_upper s else 0),
                           (ustr ''digits'', if chk_digits s then min_digits s else 0),
                           (ustr ''symbols'', if chk_symbols s then min_symbols s else 0)]) = ?total"
    by simp
  with assms show ?thesis
    unfolding on_generate_def Let_def by (simp only: if_False if_True not_False_eq_True simp_thms)
qed

text \<open>
  Claim C1, as amended. Let the full character set be non-empty, the pool of every required
  class be a part of it, the pool of every class with a count other than 0 be non-empty, and
  the sum of the counts, each negative count taken as 0, be at most \<open>len\<close>. Then, for every
  run of the random source, \<open>generate_with_requirements\<close> returns a password: it has
  exactly \<open>len\<close> characters, each of the full character set, and for every class at least
  as many characters of the class's pool as the class requires.
\<close>

theorem generate_with_requirements_meets_minimums:
  assumes "full_charset \<noteq> []"
    and "\<forall>(key, n) \<in> set required. set (pool_of pools key) \<subseteq> set full_charset"
    and "\<forall>(key, n) \<in> set required. n \<noteq> 0 \<longrightarrow> pool_of pools key \<noteq> []"
    and "total_required required \<le> len"
  shows "\<exists>pw g'. generate_with_requirements len pools required full_charset g = Inr (pw, g') \<and>
           int (length pw) = len \<and> set pw \<subseteq> set full_charset \<and>
           (\<forall>(key, n) \<in> set required.
               n \<le> int (length (filter (\<lambda>ch. ch \<in> set (pool_of pools key)) pw)))"
  using assms by (rule generate_with_requirements_ok)

theorem generate_with_requirements_meets_minimums_witness:
  "\<exists>pw g'. generate_with_requirements 4
        [ustr ''lower'' \<mapsto> ustr ''ab'', ustr ''digits'' \<mapsto> ustr ''12'', ustr ''upper'' \<mapsto> ustr ''b'']
        [(ustr ''lower'', 1), (ustr ''digits'', 2), (ustr ''upper'', -1)] (ustr ''ab12'')
        [1, 0, 1, 3, 2, 0, 1] = Inr (pw, g') \<and>
      int (length pw) = 4 \<and> set pw \<subseteq> set (ustr ''ab12'') \<and>
      1 \<le> int (length (filter (\<lambda>ch. ch \<in> set (ustr ''ab'')) pw)) \<and>
      2 \<le> int (length (filter (\<lambda>ch. ch \<in> set (ustr ''12'')) pw))"
proof -
  let ?pools = "[ustr ''lower'' \<mapsto> ustr ''ab'', ustr ''digits'' \<mapsto> ustr ''12'',
                 ustr ''upper'' \<mapsto> ustr ''b'']"
  let ?req = "[(ustr ''lower'', 1), (ustr ''digits'', 2), (ustr ''upper'', -1 :: int)]"
  have h1: "ustr ''ab12'' \<noteq> []"
    by (simp add: ustr_def)
  have h2: "\<forall>(key, n) \<in> set ?req. set (pool_of ?pools key) \<subseteq> set (ustr ''ab12'')"
    by (auto simp: pool_of_def ustr_def)
  have h3: "\<forall>(key, n) \<in> set ?req. n \<noteq> 0 \<longrightarrow> pool_of ?pools key \<noteq> []"
    by (simp add: pool_of_def ustr_def)
  have h4: "total_required ?req \<le> 4"
    by (simp add: total_required_def)
  have p1: "pool_of ?pools (ustr ''lower'') = ustr ''ab''"
    by (simp add: pool_of_def ustr_def)
  have p2: "pool_of ?pools (ustr ''digits'') = ustr ''12''"
    by (simp add: pool_of_def ustr_def)
  from generate_with_requirements_meets_minimums [OF h1 h2 h3 h4, of "[1, 0, 1, 3, 2, 0, 1]"]
  obtain pw g' where r:
      "generate_with_requirements 4 ?pools ?req (ustr ''ab12'') [1, 0, 1, 3, 2, 0, 1] = Inr (pw, g')"
      "int (length pw) = 4" "set pw \<subseteq> set (ustr ''ab12'')"
      "\<forall>(key, n) \<in> set ?req.
          n \<le> int (length (filter (\<lambda>ch. ch \<in> set (pool_of ?pools key)) pw))"
    by blast
  from r(4) have "1 \<le> int (length (filter (\<lambda>ch. ch \<in> set (pool_of ?pools (ustr ''lower''))) pw))"
    by simp
  then have c1: "1 \<le> int (length (filter (\<lambda>ch. ch \<in> set (ustr ''ab'')) pw))"
    by (simp only: p1)
  from r(4) have "2 \<le> int (length (filter (\<lambda>ch. ch \<in> set (pool_of ?pools (ustr ''digits''))) pw))"
    by simp
  then have c2: "2 \<le> int (length (filter (\<lambda>ch. ch \<in> set (ustr ''12'')) pw))"
    by (simp only: p2)
  from r(1) r(2) r(3) c1 c2 show ?thesis
    by blast
qed

text \<open>
  Claim C1 as it is stated takes the plain sum of the counts. With the counts \<open>-5\<close> for
  \<open>lower\<close> and \<open>10\<close> for \<open>digits\<close> and the length 6, every hypothesis of the claim holds
  (the sum is 5), and the call raises: line 133 adds up \<open>max(0, n)\<close>, which gives 10.
\<close>

theorem generate_with_requirements_negative_count_counterexample:
  "ustr ''ab12'' \<noteq> [] \<and>
   set (pool_of [ustr ''lower'' \<mapsto> ustr ''ab'', ustr ''digits'' \<mapsto> ustr ''12''] (ustr ''lower''))
     \<subseteq> set (ustr ''ab12'') \<and>
   set (pool_of [ustr ''lower'' \<mapsto> ustr ''ab'', ustr ''digits'' \<mapsto> ustr ''12''] (ustr ''digits''))
     \<subseteq> set (ustr ''ab12'') \<and>
   pool_of [ustr ''lower'' \<mapsto> ustr ''ab'', ustr ''digits'' \<mapsto> ustr ''12''] (ustr ''lower'') \<noteq> [] \<and>
   pool_of [ustr ''lower'' \<mapsto> ustr ''ab'', ustr ''digits'' \<mapsto> ustr ''12''] (ustr ''digits'') \<noteq> [] \<and>
   sum_list (map snd [(ustr ''lower'', -5), (ustr ''digits'', 10 :: int)]) \<le> 6 \<and>
   generate_with_requirements 6 [ustr ''lower'' \<mapsto> ustr ''ab'', ustr ''digits'' \<mapsto> ustr ''12'']
     [(ustr ''lower'', -5), (ustr ''digits'', 10)] (ustr ''ab12'') [] =
     Inl (RequirementExceedsLength 10 6)"
  by (simp add: generate_with_requirements_def total_required_def pool_of_def ustr_def)

text \<open>
  Claim C3. \<open>generate_with_requirements\<close> raises for an empty full character set; it
  raises \<open>RequirementExceedsLength\<close> when the counts add up to more than the length, with
  negative counts taken as 0 or as they are, so for a sum of 25 and the length 20; and when
  the first two checks pass and a class with a positive count has an empty pool, it raises
  \<open>EmptyRequiredPool\<close> for a class whose pool is empty. A call that raises returns no
  password.
\<close>

theorem generate_with_requirements_rejects:
  "(full_charset = [] \<longrightarrow>
      generate_with_requirements len pools required full_charset g = Inl EmptyCharset) \<and>
   (full_charset \<noteq> [] \<and> len < total_required required \<longrightarrow>
      generate_with_requirements len pools required full_charset g =
        Inl (RequirementExceedsLength (total_required required) len)) \<and>
   (full_charset \<noteq> [] \<and> len < sum_list (map snd required) \<longrightarrow>
      generate_with_requirements len pools required full_charset g =
        Inl (RequirementExceedsLength (total_required required) len)) \<and>
   (full_charset \<noteq> [] \<and> sum_list (map snd required) = 25 \<longrightarrow>
      generate_with_requirements 20 pools required full_charset g =
        Inl (RequirementExceedsLength (total_required required) 20)) \<and>
   (full_charset \<noteq> [] \<and> total_required required \<le> len \<and>
    (\<exists>(key, n) \<in> set required. 0 < n \<and> pool_of pools key = []) \<longrightarrow>
      (\<exists>key. generate_with_requirements len pools required full_charset g =
                Inl (EmptyRequiredPool key) \<and>
             key \<in> fst ` set required \<and> pool_of pools key = [])) \<and>
   (\<forall>e. generate_with_requirements len pools required full_charset g = Inl e \<longrightarrow>
      (\<forall>pw g'. generate_with_requirements len pools required full_charset g \<noteq> Inr (pw, g')))"
proof (intro conjI impI allI)
  assume "full_charset = []"
  then show "generate_with_requirements len pools required full_charset g = Inl EmptyCharset"
    by (simp add: generate_with_requirements_def)
next
  assume "full_charset \<noteq> [] \<and> len < total_required required"
  then show "generate_with_requirements len pools required full_charset g =
               Inl (RequirementExceedsLength (total_required required) len)"
    by (simp add: generate_with_requirements_def)
next
  assume a: "full_charset \<noteq> [] \<and> len < sum_list (map snd required)"
  have "sum_list (map snd required) \<le> total_required required"
    by (rule sum_le_total_required)
  with a show "generate_with_requirements len pools required full_charset g =
               Inl (RequirementExceedsLength (total_required required) len)"
    by (simp add: generate_with_requirements_def)
next
  assume a: "full_charset \<noteq> [] \<and> sum_list (map snd required) = 25"
  have "sum_list (map snd required) \<le> total_required required"
    by (rule sum_le_total_required)
  with a show "generate_with_requirements 20 pools required full_charset g =
               Inl (RequirementExceedsLength (total_required required) 20)"
    by (simp add: generate_with_requirements_def)
next
  assume a: "full_charset \<noteq> [] \<and> total_required required \<le> len \<and>
             (\<exists>(key, n) \<in> set required. 0 < n \<and> pool_of pools key = [])"
  from a have ne: "full_charset \<noteq> []"
    by (rule conjunct1)
  from a have fit: "\<not> len < total_required required"
    by (simp only: not_less)
  from a obtain item where item: "item \<in> set required"
      "case item of (key, n) \<Rightarrow> 0 < n \<and> pool_of pools key = []"
    by blast
  obtain k n where kn: "item = (k, n)"
    by (cases item)
  from item(2) have "n \<noteq> 0" "pool_of pools k = []"
    by (simp_all add: kn)
  then have "case item of (key, n) \<Rightarrow> n \<noteq> 0 \<and> pool_of pools key = []"
    by (simp add: kn)
  with item(1) have "\<exists>(key, n) \<in> set required. n \<noteq> 0 \<and> pool_of pools key = []"
    by (rule bexI [rotated])
  from place_required_empty_pool [OF this, of "[]" g]
  obtain key where key: "place_required required pools [] g = Inl (EmptyRequiredPool key)"
      "key \<in> fst ` set required" "pool_of pools key = []"
    by blast
  have "generate_with_requirements len pools required full_charset g =
          Inl (EmptyRequiredPool key)"
    by (simp add: generate_with_requirements_def ne fit key(1))
  with key(2,3)
  show "\<exists>key. generate_with_requirements len pools required full_charset g =
                       Inl (EmptyRequiredPool key) \<and>
                     key \<in> fst ` set required \<and> pool_of pools key = []"
    by blast
next
  fix e pw g'
  assume "generate_with_requirements len pools required full_charset g = Inl e"
  then show "generate_with_requirements len pools required full_charset g \<noteq> Inr (pw, g')"
    by simp
qed

theorem generate_with_requirements_rejects_witness:
  "generate_with_requirements 8 [ustr ''lower'' \<mapsto> ustr ''ab''] [(ustr ''lower'', 1)] [] [3, 1] =
     Inl EmptyCharset \<and>
   sum_list (map snd [(ustr ''lower'', 10), (ustr ''upper'', 5), (ustr ''digits'', 5),
                      (ustr ''symbols'', 5 :: int)]) = 25 \<and>
   generate_with_requirements 20 [ustr ''lower'' \<mapsto> ustr ''ab'']
     [(ustr ''lower'', 10), (ustr ''upper'', 5), (ustr ''digits'', 5), (ustr ''symbols'', 5)]
     (ustr ''ab'') [3, 1] = Inl (RequirementExceedsLength 25 20) \<and>
   (\<exists>key. generate_with_requirements 8 [ustr ''lower'' \<mapsto> ustr ''ab'']
            [(ustr ''lower'', 1), (ustr ''digits'', 2)] (ustr ''ab'') [3, 1] =
            Inl (EmptyRequiredPool key) \<and>
          pool_of [ustr ''lower'' \<mapsto> ustr ''ab''] key = [])"
proof -
  let ?pools = "[ustr ''lower'' \<mapsto> ustr ''ab'']"
  let ?r25 = "[(ustr ''lower'', 10), (ustr ''upper'', 5), (ustr ''digits'', 5),
               (ustr ''symbols'', 5 :: int)]"
  let ?r3 = "[(ustr ''lower'', 1), (ustr ''digits'', 2 :: int)]"
  have a: "generate_with_requirements 8 ?pools [(ustr ''lower'', 1)] [] [3, 1] = Inl EmptyCharset"
    (is ?A)
    using generate_with_requirements_rejects
            [of "[]" 8 ?pools "[(ustr ''lower'', 1)]" "[3, 1]", THEN conjunct1]
    by simp
  have s: "sum_list (map snd ?r25) = 25" (is ?S)
    by simp
  have t: "total_required ?r25 = 25"
    by (simp add: total_required_def)
  have ne: "ustr ''ab'' \<noteq> []"
    by (simp add: ustr_def)
  have "generate_with_requirements 20 ?pools ?r25 (ustr ''ab'') [3, 1] =
             Inl (RequirementExceedsLength (total_required ?r25) 20)"
  proof (rule generate_with_requirements_rejects
            [of "ustr ''ab''" 20 ?pools ?r25 "[3, 1]",
             THEN conjunct2, THEN conjunct2, THEN conjunct2, THEN conjunct1, THEN mp])
    from ne s show "ustr ''ab'' \<noteq> [] \<and> sum_list (map snd ?r25) = 25"
      by (rule conjI)
  qed
  then have b: "generate_with_requirements 20 ?pools ?r25 (ustr ''ab'') [3, 1] =
             Inl (RequirementExceedsLength 25 20)" (is ?B)
    by (simp only: t)
  have fit: "total_required ?r3 \<le> 8"
    by (simp add: total_required_def)
  have bad: "\<exists>(key, n) \<in> set ?r3. 0 < n \<and> pool_of ?pools key = []"
    by (simp add: pool_of_def ustr_def)
  have "\<exists>key. generate_with_requirements 8 ?pools ?r3 (ustr ''ab'') [3, 1] =
                   Inl (EmptyRequiredPool key) \<and>
                 key \<in> fst ` set ?r3 \<and> pool_of ?pools key = []"
  proof (rule generate_with_requirements_rejects
            [of "ustr ''ab''" 8 ?pools ?r3 "[3, 1]",
             THEN conjunct2, THEN conjunct2, THEN conjunct2, THEN conjunct2, THEN conjunct1,
             THEN mp])
    from fit bad
    have "total_required ?r3 \<le> 8 \<and>
          (\<exists>(key, n) \<in> set ?r3. 0 < n \<and> pool_of ?pools key = [])"
      by (rule conjI)
    with ne
    show "ustr ''ab'' \<noteq> [] \<and> total_required ?r3 \<le> 8 \<and>
          (\<exists>(key, n) \<in> set ?r3. 0 < n \<and> pool_of ?pools key = [])"
      by (rule conjI)
  qed
  then have c: "\<exists>key. generate_with_requirements 8 ?pools ?r3 (ustr ''ab'') [3, 1] =
                   Inl (EmptyRequiredPool key) \<and> pool_of ?pools key = []" (is ?C)
    by blast
  from b c have "?B \<and> ?C"
    by (rule conjI)
  with s have "?S \<and> ?B \<and> ?C"
    by (rule conjI)
  with a show ?thesis
    by (rule conjI)
qed

text \<open>
  Claim C10 at the call with the length 5, no pool at all, the count \<open>-1\<close> for \<open>lower\<close>
  and the full character set \<open>abc\<close>: the test \<open>if n and not pool\<close> of line 142 holds for a
  negative \<open>n\<close>, and the call raises. The same call with the count 0 returns a password of
  5 characters.
\<close>

theorem generate_with_requirements_negative_count_empty_pool:
  "generate_with_requirements 5 Map.empty [(ustr ''lower'', -1)] (ustr ''abc'') g =
     Inl (EmptyRequiredPool (ustr ''lower'')) \<and>
   (\<exists>pw g'. generate_with_requirements 5 Map.empty [(ustr ''lower'', 0)] (ustr ''abc'') g =
              Inr (pw, g') \<and> int (length pw) = 5)"
proof
  show "generate_with_requirements 5 Map.empty [(ustr ''lower'', -1)] (ustr ''abc'') g =
          Inl (EmptyRequiredPool (ustr ''lower''))"
    by (simp add: generate_with_requirements_def total_required_def pool_of_def ustr_def)
next
  have "ustr ''abc'' \<noteq> []"
    by (simp add: ustr_def)
  moreover have "\<forall>(key, n) \<in> set [(ustr ''lower'', 0 :: int)].
                   set (pool_of Map.empty key) \<subseteq> set (ustr ''abc'')"
    by (simp add: pool_of_def)
  moreover have "\<forall>(key, n) \<in> set [(ustr ''lower'', 0 :: int)]. n \<noteq> 0 \<longrightarrow> pool_of Map.empty key \<noteq> []"
    by simp
  moreover have "total_required [(ustr ''lower'', 0)] \<le> 5"
    by (simp add: total_required_def)
  ultimately have "\<exists>pw g'. generate_with_requirements 5 Map.empty [(ustr ''lower'', 0)] (ustr ''abc'') g =
              Inr (pw, g') \<and> int (length pw) = 5 \<and> set pw \<subseteq> set (ustr ''abc'') \<and>
           (\<forall>(key, n) \<in> set [(ustr ''lower'', 0 :: int)].
               n \<le> int (length (filter (\<lambda>ch. ch \<in> set (pool_of Map.empty key)) pw)))"
    by (rule generate_with_requirements_ok)
  then show "\<exists>pw g'. generate_with_requirements 5 Map.empty [(ustr ''lower'', 0)] (ustr ''abc'') g =
              Inr (pw, g') \<and> int (length pw) = 5"
    by blast
qed

theorem generate_with_requirements_negative_count_empty_pool_witness:
  "generate_with_requirements 5 Map.empty [(ustr ''lower'', -1)] (ustr ''abc'') [2, 0, 1, 1, 2] =
     Inl (EmptyRequiredPool (ustr ''lower'')) \<and>
   (\<exists>pw g'. generate_with_requirements 5 Map.empty [(ustr ''lower'', 0)] (ustr ''abc'')
              [2, 0, 1, 1, 2] = Inr (pw, g') \<and> int (length pw) = 5)"
  by (rule generate_with_requirements_negative_count_empty_pool)

section \<open>Properties of passphrases\<close>


lemma randbelow_tape:
  "randbelow n g = (hd (g @ [0]) mod n, tl g)"
  by (cases g) (simp_all add: randbelow_def)

lemma take_replicate_more:
  "take n (g @ replicate (Suc n) (0::nat)) = take n (g @ replicate n 0)"
  by (simp add: min_def del: replicate_Suc)

text \<open>The words drawn for a tape: entry \<open>r\<close> of the tape picks the word at index \<open>r mod length words\<close>.\<close>

lemma choices_tape:
  "words \<noteq> [] \<Longrightarrow>
   choices n words g =
     Inr (map (\<lambda>r. words ! (r mod length words)) (take n (g @ replicate n 0)), drop n g)"
proof (induction n arbitrary: g)
  case 0
  then show ?case by simp
next
  case (Suc n)
  show ?case
  proof (cases g)
    case Nil
    have "choices n words [] =
            Inr (map (\<lambda>r. words ! (r mod length words)) (take n ([] @ replicate n 0)), drop n [])"
      using Suc.prems by (rule Suc.IH)
    with Suc.prems Nil show ?thesis
      by (simp add: choice_def randbelow_def)
  next
    case (Cons r g')
    have "choices n words g' =
            Inr (map (\<lambda>r. words ! (r mod length words)) (take n (g' @ replicate n 0)), drop n g')"
      using Suc.prems by (rule Suc.IH)
    moreover have "take n (g' @ replicate (Suc n) 0) = take n (g' @ replicate n 0)"
      by (rule take_replicate_more)
    ultimately show ?thesis
      using Suc.prems Cons by (simp add: choice_def randbelow_def del: replicate_Suc)
  qed
qed

lemma choices_empty: "choices (Suc n) [] g = Inl IndexError"
  by (simp add: choice_def)

lemma choices_every_list:
  "set ws \<subseteq> set words \<Longrightarrow> \<exists>g. length g = length ws \<and> choices (length ws) words g = Inr (ws, [])"
proof (induction ws)
  case Nil
  then show ?case by simp
next
  case (Cons w ws)
  then obtain g where g: "length g = length ws" "choices (length ws) words g = Inr (ws, [])"
    by auto
  from Cons.prems have "w \<in> set words"
    by simp
  then obtain i where i: "i < length words" "words ! i = w"
    by (auto simp: in_set_conv_nth)
  then have "words \<noteq> []"
    by auto
  with i g have "choices (length (w # ws)) words (i # g) = Inr (w # ws, [])"
    by (simp add: choice_def randbelow_def)
  moreover have "length (i # g) = length (w # ws)"
    using g by simp
  ultimately show ?case
    by blast
qed

lemma join_empty_sep: "join [] ws = concat ws"
  by (induction "[] :: ustring" ws rule: join.induct) simp_all

lemma lower_at_ascii:
  "s ! i < 128 \<Longrightarrow> lower_at U s i = [if 65 \<le> s ! i \<and> s ! i \<le> 90 then s ! i + 32 else s ! i]"
  by (simp add: lower_at_def lower_char_def)

lemma concat_lower_at_ascii:
  "\<forall>c \<in> set cs. c < 128 \<Longrightarrow>
   concat (map (lower_at U (pre @ cs)) [length pre..<length pre + length cs]) =
     map (\<lambda>d. if 65 \<le> d \<and> d \<le> 90 then d + 32 else d) cs"
proof (induction cs arbitrary: pre)
  case Nil
  then show ?case by simp
next
  case (Cons c cs)
  have "concat (map (lower_at U ((pre @ [c]) @ cs)) [length (pre @ [c])..<length (pre @ [c]) + length cs]) =
          map (\<lambda>d. if 65 \<le> d \<and> d \<le> 90 then d + 32 else d) cs"
    using Cons.prems by (intro Cons.IH) simp
  moreover have "[length pre..<length pre + length (c # cs)] =
                   length pre # [Suc (length pre)..<Suc (length pre) + length cs]"
    by (subst upt_rec) simp
  moreover have "lower_at U (pre @ c # cs) (length pre) = [if 65 \<le> c \<and> c \<le> 90 then c + 32 else c]"
    using Cons.prems by (simp add: lower_at_ascii)
  ultimately show ?case
    by simp
qed

lemma capitalize_ascii:
  "\<forall>d \<in> set (c # cs). d < 128 \<Longrightarrow>
   capitalize U (c # cs) =
     (if 97 \<le> c \<and> c \<le> 122 then c - 32 else c) #
       map (\<lambda>d. if 65 \<le> d \<and> d \<le> 90 then d + 32 else d) cs"
  using concat_lower_at_ascii [of cs U "[c]"]
  by (simp add: capitalize_def title_char_def)

lemma capitalize_lowercase_word:
  "\<forall>d \<in> set (c # cs). 97 \<le> d \<and> d \<le> 122 \<Longrightarrow> capitalize U (c # cs) = (c - 32) # cs"
proof -
  assume a: "\<forall>d \<in> set (c # cs). 97 \<le> d \<and> d \<le> 122"
  then have "\<forall>d \<in> set (c # cs). d < 128"
    by auto
  then have "capitalize U (c # cs) =
     (if 97 \<le> c \<and> c \<le> 122 then c - 32 else c) #
       map (\<lambda>d. if 65 \<le> d \<and> d \<le> 90 then d + 32 else d) cs"
    by (rule capitalize_ascii)
  moreover have "map (\<lambda>d. if 65 \<le> d \<and> d \<le> 90 then d + 32 else d) cs = cs"
    using a by (induction cs) auto
  ultimately show ?thesis
    using a by simp
qed

lemma lower_ascii:
  "\<forall>c \<in> set s. c < 128 \<Longrightarrow>
   lower U s = map (\<lambda>d. if 65 \<le> d \<and> d \<le> 90 then d + 32 else d) s"
  using concat_lower_at_ascii [of s U "[]"] by (simp add: lower_def)

lemma generate_passphrase_tape:
  "words \<noteq> [] \<Longrightarrow>
   generate_passphrase U n_words words sep cap g =
     (let picks = map (\<lambda>r. words ! (r mod length words))
                      (take (nat n_words) (g @ replicate (nat n_words) 0))
      in Inr (join sep (if cap then map (capitalize U) picks else picks), drop (nat n_words) g))"
  by (simp add: generate_passphrase_def choices_tape Let_def)

lemma generate_passphrase_empty_words:
  "1 \<le> n_words \<Longrightarrow> generate_passphrase U n_words [] sep cap g = Inl IndexError"
proof -
  assume "1 \<le> n_words"
  then obtain k where "nat n_words = Suc k"
    by (cases "nat n_words") auto
  then show ?thesis
    by (simp add: generate_passphrase_def choice_def)
qed

lemma repeat_generate_ok:
  "(\<And>g. \<exists>p g'. gen g = Inr (p, g')) \<Longrightarrow> \<exists>ps g'. repeat_generate k gen g = Inr (ps, g')"
proof (induction k arbitrary: g)
  case 0
  then show ?case by simp
next
  case (Suc k)
  from Suc.prems obtain p g1 where p: "gen g = Inr (p, g1)"
    by blast
  from Suc.IH [OF Suc.prems] obtain ps g2 where "repeat_generate k gen g1 = Inr (ps, g2)"
    by blast
  with p show ?case
    by simp
qed

lemma on_generate_passphrase_ok:
  assumes "preset_index s = 4" and "wordlist \<noteq> []"
  shows "\<exists>passwords. on_generate U s wordlist g = Inr passwords"
proof -
  let ?sep = "if txt_separator s \<noteq> [] then txt_separator s else ustr ''-''"
  let ?gen = "generate_passphrase U (spin_words s) wordlist ?sep (chk_capitalize s)"
  have "\<And>g. \<exists>p g'. ?gen g = Inr (p, g')"
    using assms(2) by (simp add: generate_passphrase_tape Let_def)
  then obtain ps g' where
    "repeat_generate (nat (if multiple s then spin_count s else 1)) ?gen g = Inr (ps, g')"
    using repeat_generate_ok [of ?gen] by blast
  with assms show ?thesis
    by (simp add: on_generate_def Let_def)
qed

lemma on_generate_empty_separator:
  assumes "preset_index s = 4" and "wordlist \<noteq> []" and "\<not> multiple s"
    and "txt_separator s = []"
  shows "on_generate U s wordlist g =
           (case generate_passphrase U (spin_words s) wordlist (ustr ''-'') (chk_capitalize s) g of
              Inl e \<Rightarrow> Inl (GenerationFailed e)
            | Inr (p, g') \<Rightarrow> Inr [p])"
  using assms
  by (simp add: on_generate_def Let_def split: sum.splits prod.splits)

text \<open>
  Claim C8, as amended. For a word count of at least 1 and a non-empty vocabulary,
  \<open>generate_passphrase\<close> returns for every run of the random source: it draws one word for
  each of the first \<open>n_words\<close> numbers of the run, the number \<open>r\<close> picking the word at index
  \<open>r mod len(words)\<close>, so the words are drawn with replacement, and every list of
  \<open>n_words\<close> words of the vocabulary is drawn by some run. The result is the drawn words
  joined by the separator, and their concatenation when the separator is empty. With
  \<open>cap\<close> every drawn word is replaced by its \<open>capitalize()\<close>: the first character in title
  case and the remaining characters in lowercase. For a word of ASCII characters that is
  the first character uppercased when it is a lowercase letter and every later uppercase
  letter lowercased; for a word of lowercase ASCII letters it is the first letter
  uppercased and the remaining letters as drawn.
\<close>

theorem generate_passphrase_draws_and_joins:
  assumes "1 \<le> n_words" and "words \<noteq> []"
  shows "\<exists>picks.
           picks = map (\<lambda>r. words ! (r mod length words))
                       (take (nat n_words) (g @ replicate (nat n_words) 0)) \<and>
           length picks = nat n_words \<and> set picks \<subseteq> set words \<and>
           generate_passphrase U n_words words sep False g =
             Inr (join sep picks, drop (nat n_words) g) \<and>
           generate_passphrase U n_words words sep True g =
             Inr (join sep (map (capitalize U) picks), drop (nat n_words) g) \<and>
           generate_passphrase U n_words words [] False g =
             Inr (concat picks, drop (nat n_words) g) \<and>
           (\<forall>ws. length ws = nat n_words \<and> set ws \<subseteq> set words \<longrightarrow>
                 (\<exists>g'. generate_passphrase U n_words words sep False g' = Inr (join sep ws, []))) \<and>
           (\<forall>c cs. (\<forall>d \<in> set (c # cs). d < 128) \<longrightarrow>
                 capitalize U (c # cs) =
                   (if 97 \<le> c \<and> c \<le> 122 then c - 32 else c) #
                     map (\<lambda>d. if 65 \<le> d \<and> d \<le> 90 then d + 32 else d) cs) \<and>
           (\<forall>c cs. (\<forall>d \<in> set (c # cs). 97 \<le> d \<and> d \<le> 122) \<longrightarrow>
                 capitalize U (c # cs) = (c - 32) # cs)"
proof -
  define picks where
    "picks = map (\<lambda>r. words ! (r mod length words))
                 (take (nat n_words) (g @ replicate (nat n_words) 0))"
  have len: "length picks = nat n_words"
    by (simp add: picks_def)
  have "length words > 0"
    using assms(2) by simp
  then have sub: "set picks \<subseteq> set words"
    by (auto simp: picks_def)
  have plain: "generate_passphrase U n_words words sep False g =
                 Inr (join sep picks, drop (nat n_words) g)" for sep
    using assms(2) by (simp add: generate_passphrase_tape picks_def)
  have capd: "generate_passphrase U n_words words sep True g =
                 Inr (join sep (map (capitalize U) picks), drop (nat n_words) g)"
    using assms(2) by (simp add: generate_passphrase_tape picks_def)
  have cat: "generate_passphrase U n_words words [] False g =
                 Inr (concat picks, drop (nat n_words) g)"
    by (simp add: plain join_empty_sep)
  have every: "\<forall>ws. length ws = nat n_words \<and> set ws \<subseteq> set words \<longrightarrow>
                 (\<exists>g'. generate_passphrase U n_words words sep False g' = Inr (join sep ws, []))"
  proof (intro allI impI)
    fix ws
    assume a: "length ws = nat n_words \<and> set ws \<subseteq> set words"
    then obtain g' where "choices (length ws) words g' = Inr (ws, [])"
      using choices_every_list [of ws words] by blast
    with a have "generate_passphrase U n_words words sep False g' = Inr (join sep ws, [])"
      by (simp add: generate_passphrase_def)
    then show "\<exists>g'. generate_passphrase U n_words words sep False g' = Inr (join sep ws, [])"
      by (rule exI)
  qed
  have ascii: "\<forall>c cs. (\<forall>d \<in> set (c # cs). d < 128) \<longrightarrow>
                 capitalize U (c # cs) =
                   (if 97 \<le> c \<and> c \<le> 122 then c - 32 else c) #
                     map (\<lambda>d. if 65 \<le> d \<and> d \<le> 90 then d + 32 else d) cs"
    by (intro allI impI) (rule capitalize_ascii)
  have lowercase: "\<forall>c cs. (\<forall>d \<in> set (c # cs). 97 \<le> d \<and> d \<le> 122) \<longrightarrow>
                 capitalize U (c # cs) = (c - 32) # cs"
    by (intro allI impI) (rule capitalize_lowercase_word)
  show ?thesis
    using picks_def len sub plain [of sep] capd cat every ascii lowercase
    by (intro exI [of _ picks] conjI)
qed

theorem generate_passphrase_draws_and_joins_witness:
  "(1::int) \<le> 2 \<and> [ustr ''ab'', ustr ''cd''] \<noteq> [] \<and>
   generate_passphrase plain_ucd 2 [ustr ''ab'', ustr ''cd''] (ustr ''-'') False [1, 0] =
     Inr (ustr ''cd-ab'', []) \<and>
   generate_passphrase plain_ucd 2 [ustr ''ab'', ustr ''cd''] (ustr ''-'') True [1, 0] =
     Inr (ustr ''Cd-Ab'', []) \<and>
   generate_passphrase plain_ucd 2 [ustr ''ab'', ustr ''cd''] [] False [1, 0] =
     Inr (ustr ''cdab'', [])"
proof -
  let ?words = "[ustr ''ab'', ustr ''cd'']"
  have h1: "(1::int) \<le> 2"
    by simp
  have h2: "?words \<noteq> []"
    by simp
  have picks: "map (\<lambda>r. ?words ! (r mod length ?words)) (take (nat 2) ([1, 0] @ replicate (nat 2) 0)) =
                 [ustr ''cd'', ustr ''ab'']"
    by (simp add: ustr_def)
  have caps: "map (capitalize plain_ucd) [ustr ''cd'', ustr ''ab''] = [ustr ''Cd'', ustr ''Ab'']"
    by (simp add: capitalize_ascii ustr_def)
  from generate_passphrase_draws_and_joins [OF h1 h2, of "[1, 0]" plain_ucd "ustr ''-''"]
  have "generate_passphrase plain_ucd 2 ?words (ustr ''-'') False [1, 0] =
          Inr (join (ustr ''-'') [ustr ''cd'', ustr ''ab''], drop (nat 2) [1, 0]) \<and>
        generate_passphrase plain_ucd 2 ?words (ustr ''-'') True [1, 0] =
          Inr (join (ustr ''-'') (map (capitalize plain_ucd) [ustr ''cd'', ustr ''ab'']),
               drop (nat 2) [1, 0]) \<and>
        generate_passphrase plain_ucd 2 ?words [] False [1, 0] =
          Inr (concat [ustr ''cd'', ustr ''ab''], drop (nat 2) [1, 0])"
    unfolding picks by blast
  then have "generate_passphrase plain_ucd 2 ?words (ustr ''-'') False [1, 0] =
               Inr (ustr ''cd-ab'', []) \<and>
             generate_passphrase plain_ucd 2 ?words (ustr ''-'') True [1, 0] =
               Inr (ustr ''Cd-Ab'', []) \<and>
             generate_passphrase plain_ucd 2 ?words [] False [1, 0] =
               Inr (ustr ''cdab'', [])"
    unfolding caps by (simp add: ustr_def)
  with h1 h2 show ?thesis
    by blast
qed

text \<open>
  Claim C8 as it is stated leaves the remaining letters of a capitalized word as drawn and
  uppercases the first letter. From the vocabulary with the one word \<open>aB\<close> the code returns
  \<open>Ab\<close>, not \<open>AB\<close>; and the word \<open>'tis\<close>, which begins with an apostrophe (39), is returned
  with no letter uppercased.
\<close>

theorem generate_passphrase_capitalize_counterexample:
  "generate_passphrase plain_ucd 1 [ustr ''aB''] (ustr ''-'') True [0] = Inr (ustr ''Ab'', []) \<and>
   ustr ''Ab'' \<noteq> ustr ''AB'' \<and>
   generate_passphrase plain_ucd 1 [39 # ustr ''tis''] (ustr ''-'') True [0] =
     Inr (39 # ustr ''tis'', [])"
  by (simp add: generate_passphrase_def choice_def randbelow_def capitalize_ascii ustr_def)

text \<open>
  Claim C9, as amended. In passphrase mode (preset 4) \<open>on_generate\<close> with an empty word list
  shows the error of the empty vocabulary and does not call the generation; with a
  non-empty word list it puts out passphrases; in neither case it shows an exception of
  the generation. \<open>generate_passphrase\<close> itself makes no check: a non-empty vocabulary is
  its precondition, under which it returns a passphrase for every word count and every
  run of the random source.
\<close>

theorem passphrase_empty_vocabulary:
  "(preset_index s = 4 \<longrightarrow> on_generate U s [] g = Inl EmptyVocabulary) \<and>
   (preset_index s = 4 \<and> wordlist \<noteq> [] \<longrightarrow>
      (\<exists>passwords. on_generate U s wordlist g = Inr passwords)) \<and>
   (preset_index s = 4 \<longrightarrow> (\<forall>e. on_generate U s wordlist g \<noteq> Inl (GenerationFailed e))) \<and>
   (words \<noteq> [] \<longrightarrow>
      (\<exists>phrase g'. generate_passphrase U n_words words sep cap g = Inr (phrase, g')))"
proof (intro conjI impI allI)
  assume "preset_index s = 4"
  then show "on_generate U s [] g = Inl EmptyVocabulary"
    by (simp add: on_generate_def Let_def)
next
  assume "preset_index s = 4 \<and> wordlist \<noteq> []"
  then show "\<exists>passwords. on_generate U s wordlist g = Inr passwords"
    by (simp add: on_generate_passphrase_ok)
next
  fix e
  assume p: "preset_index s = 4"
  show "on_generate U s wordlist g \<noteq> Inl (GenerationFailed e)"
  proof (cases "wordlist = []")
    case True
    with p show ?thesis
      by (simp add: on_generate_def Let_def)
  next
    case False
    with p obtain passwords where "on_generate U s wordlist g = Inr passwords"
      using on_generate_passphrase_ok by blast
    then show ?thesis
      by simp
  qed
next
  assume "words \<noteq> []"
  then show "\<exists>phrase g'. generate_passphrase U n_words words sep cap g = Inr (phrase, g')"
    by (simp add: generate_passphrase_tape Let_def)
qed

theorem passphrase_empty_vocabulary_witness:
  "on_generate plain_ucd \<lparr>multiple = False, spin_count = 1, preset_index = 4, spin_words = 4,
      txt_separator = ustr ''-'', chk_capitalize = False, chk_lower = True, chk_upper = True,
      chk_digits = True, chk_symbols = False, min_lower = 1, min_upper = 1, min_digits = 1,
      min_symbols = 0, chk_exclude_ambiguous = False, txt_custom_symbols = [],
      spin_length = 16\<rparr> [] [3, 1, 2] = Inl EmptyVocabulary \<and>
   (\<exists>phrase g'. generate_passphrase plain_ucd 2 [ustr ''ab'', ustr ''cd''] (ustr ''-'') False
                    [3, 1, 2] = Inr (phrase, g'))"
proof -
  let ?s = "\<lparr>multiple = False, spin_count = 1, preset_index = 4, spin_words = 4,
      txt_separator = ustr ''-'', chk_capitalize = False, chk_lower = True, chk_upper = True,
      chk_digits = True, chk_symbols = False, min_lower = 1, min_upper = 1, min_digits = 1,
      min_symbols = 0, chk_exclude_ambiguous = False, txt_custom_symbols = [],
      spin_length = 16\<rparr>"
  have h: "preset_index ?s = 4"
    by simp
  have a: "on_generate plain_ucd ?s [] [3, 1, 2] = Inl EmptyVocabulary"
    using passphrase_empty_vocabulary [of ?s plain_ucd "[3, 1, 2]", THEN conjunct1, THEN mp, OF h] .
  have k: "[ustr ''ab'', ustr ''cd''] \<noteq> []"
    by simp
  have b: "\<exists>phrase g'. generate_passphrase plain_ucd 2 [ustr ''ab'', ustr ''cd''] (ustr ''-'') False
                           [3, 1, 2] = Inr (phrase, g')"
    using passphrase_empty_vocabulary [of ?s plain_ucd "[3, 1, 2]" _ "[ustr ''ab'', ustr ''cd'']",
            THEN conjunct2, THEN conjunct2, THEN conjunct2, THEN mp, OF k] .
  from a b show ?thesis
    by (rule conjI)
qed

text \<open>
  Claim C9 as it is stated has every request with an empty vocabulary rejected with the
  label of the empty vocabulary. \<open>generate_passphrase\<close> called with 4 words and the empty
  list raises the \<open>IndexError\<close> of \<open>secrets.choice\<close>.
\<close>

theorem empty_words_index_error_counterexample:
  "(1::int) \<le> 4 \<and>
   generate_passphrase plain_ucd 4 [] (ustr ''-'') False [3, 1, 2] = Inl IndexError"
  using generate_passphrase_empty_words [of 4 plain_ucd "ustr ''-''" False "[3, 1, 2]"]
  by simp

section \<open>Properties of the word list loader\<close>


lemma collect_words_set:
  "set (collect_words U words ls) =
     set words \<union> {lower U (strip l) | l. l \<in> set ls \<and> strip l \<noteq> [] \<and> usable U (strip l)}"
proof (induction ls arbitrary: words)
  case Nil
  show ?case by simp
next
  case (Cons l ls)
  show ?case
  proof (cases "strip l \<noteq> [] \<and> usable U (strip l)")
    case True
    then have "collect_words U words (l # ls) = collect_words U (words @ [lower U (strip l)]) ls"
      by (simp add: Let_def)
    with True show ?thesis
      by (auto simp: Cons.IH)
  next
    case False
    then have "collect_words U words (l # ls) = collect_words U words ls"
      by (auto simp: Let_def)
    with False show ?thesis
      by (auto simp: Cons.IH)
  qed
qed

lemma dedup_loop_fresh: "dedup_loop {} [] xs = first_occurrences xs"
  by (simp add: dedup_loop_first_occurrences)

lemma load_wordlist_unreadable:
  "load_wordlist_from_path U None wordlist = (False, wordlist, [FailedToLoad])"
  by (simp add: load_wordlist_from_path_def)

lemma load_wordlist_empty:
  "dedup_loop {} [] (collect_words U [] (file_lines False [] text)) = [] \<Longrightarrow>
   load_wordlist_from_path U (Some text) wordlist =
     (False, wordlist, [WordlistTooSmall, NoUsableWords])"
  by (simp add: load_wordlist_from_path_def Let_def)

lemma load_wordlist_replaces:
  "dedup_loop {} [] (collect_words U [] (file_lines False [] text)) \<noteq> [] \<Longrightarrow>
   load_wordlist_from_path U (Some text) wordlist =
     (True, dedup_loop {} [] (collect_words U [] (file_lines False [] text)),
      if length (dedup_loop {} [] (collect_words U [] (file_lines False [] text))) < 256
      then [WordlistTooSmall] else [])"
  by (simp add: load_wordlist_from_path_def Let_def)

lemma load_wordlist_example:
  "load_wordlist_from_path U
     (Some (ustr ''cat'' @ [10] @ ustr ''cat'' @ [10] @ ustr ''Dog'' @ [10] @ ustr ''123'' @ [10] @
            ustr ''foo-bar'' @ [10])) wordlist =
     (True, [ustr ''cat'', ustr ''dog'', ustr ''foo-bar''], [WordlistTooSmall])"
  by (simp add: load_wordlist_from_path_def Let_def ustr_def strip_def isspace_def usable_def
        lower_def lower_at_def lower_char_def)

text \<open>
  Claim C5 at a file whose one line is U+212A (Kelvin sign), and at one whose one line is
  U+0130 (capital I with dot above): neither character is an ASCII letter, an apostrophe
  or a hyphen, and both lines are accepted. The test of line 641 compares the lowercase
  form of the character with \<open>a\<close> and \<open>z\<close>, and these two characters lower to \<open>k\<close> and to
  \<open>i\<close> followed by U+0307.
\<close>

theorem load_wordlist_accepts_kelvin_sign:
  "load_wordlist_from_path U (Some [8490, 10]) wordlist = (True, [[107]], [WordlistTooSmall]) \<and>
   load_wordlist_from_path U (Some [304, 10]) wordlist = (True, [[105, 775]], [WordlistTooSmall])"
  by (simp add: load_wordlist_from_path_def Let_def strip_def isspace_def usable_def
        lower_def lower_at_def lower_char_def)

theorem load_wordlist_accepts_kelvin_sign_witness:
  "load_wordlist_from_path plain_ucd (Some [8490, 10]) [ustr ''old''] =
     (True, [ustr ''k''], [WordlistTooSmall])"
  using load_wordlist_accepts_kelvin_sign [of plain_ucd "[ustr ''old'']"]
  by (simp add: ustr_def)

text \<open>
  Claim C7. With \<open>filtered\<close> the list that lines 637 to 648 compute from the file: when it
  is empty, the loader shows the error of no usable words, returns \<open>False\<close> and leaves the
  word list as it was; when it is not empty, the loader returns \<open>True\<close> and the word list
  becomes \<open>filtered\<close>, which does not depend on the word list before and holds only
  lowered, stripped, usable lines of the file. Whenever the loader returns \<open>False\<close>, also
  for a file that cannot be read, the word list is unchanged.
\<close>

theorem load_wordlist_atomic:
  "(dedup_loop {} [] (collect_words U [] (file_lines False [] text)) = [] \<longrightarrow>
      (\<exists>shown. load_wordlist_from_path U (Some text) wordlist =
                  (False, wordlist, shown @ [NoUsableWords]))) \<and>
   (dedup_loop {} [] (collect_words U [] (file_lines False [] text)) \<noteq> [] \<longrightarrow>
      (\<exists>shown. load_wordlist_from_path U (Some text) wordlist =
                  (True, dedup_loop {} [] (collect_words U [] (file_lines False [] text)), shown) \<and>
               NoUsableWords \<notin> set shown \<and> FailedToLoad \<notin> set shown)) \<and>
   fst (load_wordlist_from_path U (Some text) wordlist) =
     (dedup_loop {} [] (collect_words U [] (file_lines False [] text)) \<noteq> []) \<and>
   (fst (load_wordlist_from_path U (Some text) wordlist) \<longrightarrow>
      fst (snd (load_wordlist_from_path U (Some text) wordlist)) =
        fst (snd (load_wordlist_from_path U (Some text) [])) \<and>
      (\<forall>w \<in> set (fst (snd (load_wordlist_from_path U (Some text) wordlist))).
         \<exists>l \<in> set (file_lines False [] text).
           strip l \<noteq> [] \<and> usable U (strip l) \<and> w = lower U (strip l))) \<and>
   (\<not> fst (load_wordlist_from_path U (Some text) wordlist) \<longrightarrow>
      fst (snd (load_wordlist_from_path U (Some text) wordlist)) = wordlist) \<and>
   load_wordlist_from_path U None wordlist = (False, wordlist, [FailedToLoad])"
proof -
  let ?filtered = "dedup_loop {} [] (collect_words U [] (file_lines False [] text))"
  have words: "\<forall>w \<in> set ?filtered.
                 \<exists>l \<in> set (file_lines False [] text).
                   strip l \<noteq> [] \<and> usable U (strip l) \<and> w = lower U (strip l)"
    by (auto simp: dedup_loop_fresh first_occurrences_set collect_words_set)
  show ?thesis
  proof (cases "?filtered = []")
    case True
    then have e: "load_wordlist_from_path U (Some text) wordlist =
                    (False, wordlist, [WordlistTooSmall] @ [NoUsableWords])"
      by (simp add: load_wordlist_empty)
    then have "\<exists>shown. load_wordlist_from_path U (Some text) wordlist =
                          (False, wordlist, shown @ [NoUsableWords])"
      by (rule exI)
    with True e show ?thesis
      by (simp add: load_wordlist_unreadable)
  next
    case False
    let ?shown = "if length ?filtered < 256 then [WordlistTooSmall] else []"
    from False have e: "load_wordlist_from_path U (Some text) wordlist = (True, ?filtered, ?shown)"
      by (rule load_wordlist_replaces)
    from False have e0: "load_wordlist_from_path U (Some text) [] = (True, ?filtered, ?shown)"
      by (rule load_wordlist_replaces)
    have "NoUsableWords \<notin> set ?shown \<and> FailedToLoad \<notin> set ?shown"
      by simp
    with e have "\<exists>shown. load_wordlist_from_path U (Some text) wordlist = (True, ?filtered, shown) \<and>
                   NoUsableWords \<notin> set shown \<and> FailedToLoad \<notin> set shown"
      by blast
    with False words show ?thesis
      by (simp add: e e0 load_wordlist_unreadable)
  qed
qed

theorem load_wordlist_atomic_witness:
  "dedup_loop {} [] (collect_words plain_ucd [] (file_lines False [] (ustr ''123'' @ [10]))) = [] \<and>
   load_wordlist_from_path plain_ucd (Some (ustr ''123'' @ [10])) [ustr ''old''] =
     (False, [ustr ''old''], [WordlistTooSmall, NoUsableWords]) \<and>
   dedup_loop {} [] (collect_words plain_ucd [] (file_lines False [] (ustr ''Dog'' @ [10]))) \<noteq> [] \<and>
   fst (load_wordlist_from_path plain_ucd (Some (ustr ''Dog'' @ [10])) [ustr ''old'']) \<and>
   fst (snd (load_wordlist_from_path plain_ucd (Some (ustr ''Dog'' @ [10])) [ustr ''old''])) =
     [ustr ''dog'']"
proof -
  let ?bad = "ustr ''123'' @ [10]"
  let ?good = "ustr ''Dog'' @ [10]"
  let ?old = "[ustr ''old'']"
  have h1: "dedup_loop {} [] (collect_words plain_ucd [] (file_lines False [] ?bad)) = []"
    by (simp add: ustr_def strip_def isspace_def usable_def lower_def lower_at_def lower_char_def)
  have h2: "dedup_loop {} [] (collect_words plain_ucd [] (file_lines False [] ?good)) = [ustr ''dog'']"
    by (simp add: ustr_def strip_def isspace_def usable_def lower_def lower_at_def lower_char_def)
  then have h3: "dedup_loop {} [] (collect_words plain_ucd [] (file_lines False [] ?good)) \<noteq> []"
    by simp
  from load_wordlist_atomic [of plain_ucd ?bad ?old, THEN conjunct1, THEN mp, OF h1]
  obtain shown where s: "load_wordlist_from_path plain_ucd (Some ?bad) ?old =
                        (False, ?old, shown @ [NoUsableWords])"
    by blast
  have "load_wordlist_from_path plain_ucd (Some ?bad) ?old =
          (False, ?old, [WordlistTooSmall, NoUsableWords])"
    using s h1 by (simp add: load_wordlist_from_path_def Let_def)
  moreover
  from load_wordlist_atomic [of plain_ucd ?good ?old, THEN conjunct2, THEN conjunct1, THEN mp, OF h3]
  obtain shown' where "load_wordlist_from_path plain_ucd (Some ?good) ?old =
       (True, dedup_loop {} [] (collect_words plain_ucd [] (file_lines False [] ?good)), shown')"
    by blast
  then have "load_wordlist_from_path plain_ucd (Some ?good) ?old = (True, [ustr ''dog''], shown')"
    by (simp only: h2)
  then have "fst (load_wordlist_from_path plain_ucd (Some ?good) ?old) \<and>
             fst (snd (load_wordlist_from_path plain_ucd (Some ?good) ?old)) = [ustr ''dog'']"
    by simp
  ultimately show ?thesis
    using h1 h3 by blast
qed

section \<open>Properties of the entropy estimate\<close>


lemma pow3_neq_pow2: "0 < n \<Longrightarrow> (3::nat) ^ n \<noteq> 2 ^ m"
proof
  assume n: "0 < n" and e: "(3::nat) ^ n = 2 ^ m"
  have "odd ((3::nat) ^ n)"
    by simp
  with e have "odd ((2::nat) ^ m)"
    by simp
  then have "m = 0"
    by simp
  with e have "(3::nat) ^ n = 1"
    by simp
  with n show False
    by simp
qed

lemma log_2_3_irrational: "log 2 3 \<notin> \<rat>"
proof
  assume "log 2 3 \<in> \<rat>"
  then obtain m n :: nat where n: "n \<noteq> 0" and q: "\<bar>log 2 3\<bar> = real m / real n"
    by (rule Rats_abs_nat_div_natE)
  have "0 < log 2 (3::real)"
    by simp
  with q have l: "log 2 3 = real m / real n"
    by simp
  have "(3::real) = 2 powr (log 2 3)"
    by simp
  then have "(3::real) powr real n = (2 powr (real m / real n)) powr real n"
    by (simp only: l)
  also have "\<dots> = 2 powr real m"
    using n by (simp add: powr_powr)
  finally have "(3::real) ^ n = 2 ^ m"
    by (simp add: powr_realpow)
  then have "real (3 ^ n) = real (2 ^ m)"
    by simp
  then have "(3::nat) ^ n = 2 ^ m"
    by (simp only: of_nat_eq_iff)
  with n show False
    using pow3_neq_pow2 [of n m] by simp
qed

lemma of_rat_neq_log_2_3: "real_of_rat q \<noteq> log 2 3"
proof
  assume "real_of_rat q = log 2 3"
  then have "log 2 3 \<in> \<rat>"
    by (metis Rats_of_rat)
  with log_2_3_irrational show False
    by simp
qed

lemma estimate_entropy_bits_degenerate:
  "len \<le> 0 \<or> charset_size \<le> 1 \<Longrightarrow>
   estimate_entropy_bits F len charset_size = Some (Finite 0)"
  by (simp add: estimate_entropy_bits_def)

lemma estimate_entropy_bits_product:
  "0 < len \<Longrightarrow> 1 < charset_size \<Longrightarrow>
   estimate_entropy_bits F len charset_size = int_times F len (math_log2 F charset_size)"
  by (simp add: estimate_entropy_bits_def)

lemma irrational_multiple:
  assumes "x \<notin> \<rat>" and "n \<noteq> 0"
  shows "real_of_rat q \<noteq> real_of_int n * x"
proof
  assume e: "real_of_rat q = real_of_int n * x"
  from assms(2) have "x = real_of_rat q / real_of_int n"
    by (simp add: e)
  also have "\<dots> = real_of_rat (q / of_int n)"
    by (simp add: of_rat_divide)
  finally have "x \<in> \<rat>"
    by (metis Rats_of_rat)
  with assms(1) show False
    by simp
qed

text \<open>
  Claim C6, as amended. \<open>estimate_entropy_bits\<close> returns 0 whenever the length is at most 0
  or the size of the character set is at most 1. For a length \<open>L\<close> above 0 and a size \<open>S\<close>
  above 1 it returns what the floating-point arithmetic gives for the product of \<open>L\<close> and
  \<open>math.log2(S)\<close>. That is a double: whatever the arithmetic does, the value returned is
  not \<open>L * log2(S)\<close> when \<open>log2(S)\<close> is irrational.
\<close>

theorem estimate_entropy_bits_value:
  "(len \<le> 0 \<or> charset_size \<le> 1 \<longrightarrow>
      estimate_entropy_bits F len charset_size = Some (Finite 0)) \<and>
   (0 < len \<and> 1 < charset_size \<longrightarrow>
      estimate_entropy_bits F len charset_size = int_times F len (math_log2 F charset_size)) \<and>
   (\<forall>q. 0 < len \<and> 1 < charset_size \<and> log 2 (real_of_int charset_size) \<notin> \<rat> \<and>
        estimate_entropy_bits F len charset_size = Some (Finite q) \<longrightarrow>
        real_of_rat q \<noteq> real_of_int len * log 2 (real_of_int charset_size))"
proof (intro conjI impI allI)
  assume "len \<le> 0 \<or> charset_size \<le> 1"
  then show "estimate_entropy_bits F len charset_size = Some (Finite 0)"
    by (rule estimate_entropy_bits_degenerate)
next
  assume "0 < len \<and> 1 < charset_size"
  then show "estimate_entropy_bits F len charset_size = int_times F len (math_log2 F charset_size)"
    by (simp add: estimate_entropy_bits_product)
next
  fix q
  assume a: "0 < len \<and> 1 < charset_size \<and> log 2 (real_of_int charset_size) \<notin> \<rat> \<and>
             estimate_entropy_bits F len charset_size = Some (Finite q)"
  then have "log 2 (real_of_int charset_size) \<notin> \<rat>" and "len \<noteq> 0"
    by simp_all
  then show "real_of_rat q \<noteq> real_of_int len * log 2 (real_of_int charset_size)"
    by (rule irrational_multiple)
qed

theorem estimate_entropy_bits_value_witness:
  "estimate_entropy_bits example_float_ops 0 26 = Some (Finite 0) \<and>
   estimate_entropy_bits example_float_ops 16 1 = Some (Finite 0) \<and>
   estimate_entropy_bits example_float_ops 3 4 = Some (Finite 6) \<and>
   real_of_rat (892254565955501 / 562949953421312) \<noteq> real_of_int 1 * log 2 (real_of_int 3)"
proof -
  have a: "estimate_entropy_bits example_float_ops 0 26 = Some (Finite 0)"
    using estimate_entropy_bits_value [of 0 26 example_float_ops, THEN conjunct1] by simp
  have b: "estimate_entropy_bits example_float_ops 16 1 = Some (Finite 0)"
    using estimate_entropy_bits_value [of 16 1 example_float_ops, THEN conjunct1] by simp
  have "estimate_entropy_bits example_float_ops 3 4 =
          int_times example_float_ops 3 (math_log2 example_float_ops 4)"
    using estimate_entropy_bits_value [of 3 4 example_float_ops, THEN conjunct2, THEN conjunct1]
    by simp
  then have c: "estimate_entropy_bits example_float_ops 3 4 = Some (Finite 6)"
    by (simp add: example_float_ops_def)
  have e: "estimate_entropy_bits example_float_ops 1 3 =
             Some (Finite (892254565955501 / 562949953421312))"
    by (simp add: estimate_entropy_bits_def example_float_ops_def)
  have irr: "log 2 (real_of_int 3) \<notin> \<rat>"
    using log_2_3_irrational by simp
  have h: "0 < (1::int) \<and> 1 < (3::int) \<and> log 2 (real_of_int 3) \<notin> \<rat> \<and>
           estimate_entropy_bits example_float_ops 1 3 =
             Some (Finite (892254565955501 / 562949953421312))"
    using irr e by simp
  have d: "real_of_rat (892254565955501 / 562949953421312) \<noteq>
             real_of_int 1 * log 2 (real_of_int 3)"
    using estimate_entropy_bits_value [of 1 3 example_float_ops, THEN conjunct2, THEN conjunct2,
            THEN spec, of "892254565955501 / 562949953421312", THEN mp, OF h] .
  from c d have "estimate_entropy_bits example_float_ops 3 4 = Some (Finite 6) \<and>
                 real_of_rat (892254565955501 / 562949953421312) \<noteq>
                   real_of_int 1 * log 2 (real_of_int 3)"
    by (rule conjI)
  with b have "estimate_entropy_bits example_float_ops 16 1 = Some (Finite 0) \<and>
               estimate_entropy_bits example_float_ops 3 4 = Some (Finite 6) \<and>
               real_of_rat (892254565955501 / 562949953421312) \<noteq>
                 real_of_int 1 * log 2 (real_of_int 3)"
    by (rule conjI)
  with a show ?thesis
    by (rule conjI)
qed

text \<open>
  Claim C6 as it is stated has the result equal to \<open>L * log2(S)\<close> exactly. For the length 1
  and the size 3 the interpreter returns the double 892254565955501 / 2^49, and \<open>log2(3)\<close>
  is irrational.
\<close>

theorem estimate_entropy_bits_inexact_counterexample:
  "0 < (1::int) \<and> 1 < (3::int) \<and>
   estimate_entropy_bits example_float_ops 1 3 =
     Some (Finite (892254565955501 / 562949953421312)) \<and>
   real_of_rat (892254565955501 / 562949953421312) \<noteq> 1 * log 2 3"
proof -
  have "estimate_entropy_bits example_float_ops 1 3 =
          Some (Finite (892254565955501 / 562949953421312))"
    by (simp add: estimate_entropy_bits_def example_float_ops_def)
  moreover have "real_of_rat (892254565955501 / 562949953421312) \<noteq> 1 * log 2 3"
    using of_rat_neq_log_2_3 [of "892254565955501 / 562949953421312"] by simp
  ultimately show ?thesis
    by simp
qed


end
